theory Spec2Isabelle
  imports Complex_Main
begin

section \<open>The forest-fire model with cluster tracking\<close>

text \<open>
  The embedding follows \<^verbatim>\<open>ForestFireModel\<close> of
  \<^verbatim>\<open>drossel-schwabl_forest_fire_model.py\<close>.

  \<^item> A two-dimensional numpy array of shape \<open>(n, n)\<close> is a function from a row and a
    column index to the element, with the side \<open>n\<close> kept in \<open>grid_size\<close>. Only the
    entries with both indices below \<open>n\<close> belong to the array; every count, every
    \<^verbatim>\<open>np.unique\<close> and every theorem ranges over these entries only (\<open>cells n\<close>, in
    row-major order, the order of numpy's boolean-mask indexing).
  \<^item> The cell states are the integers of the source: 0 empty, 1 tree, 2 fire, 3 ash.
  \<^item> Python integers are \<open>int\<close>. The cluster ids and the counter are numpy 64-bit
    integers in the source; the embedding takes them as unbounded.
  \<^item> The constructor fails where its array allocation fails. A step allocates arrays of the
    shape the constructor allocated; the embedding takes these allocations to succeed.
  \<^item> The pseudo-random draws of \<^verbatim>\<open>np.random.random\<close> are inputs: the constructor
    takes one array of draws, a step takes two (tree growth, lightning).
  \<^item> A \<^verbatim>\<open>deque(maxlen=m)\<close> is a record of its bound and its items, oldest first.
  \<^item> The cluster registry is a dict: a map from the id to the entry. The dict
    \<^verbatim>\<open>current_clusters\<close> is only iterated for its keys: an association list in insertion
    order.
\<close>

subsection \<open>Arrays\<close>

type_synonym 'a array2 = "nat \<Rightarrow> nat \<Rightarrow> 'a"

definition cells :: "nat \<Rightarrow> (nat \<times> nat) list" where
  "cells n = List.product [0..<n] [0..<n]"

definition entry :: "'a array2 \<Rightarrow> nat \<times> nat \<Rightarrow> 'a" where
  "entry a c = a (fst c) (snd c)"

text \<open>\<^verbatim>\<open>np.roll(a, shift, axis=0)\<close> and \<^verbatim>\<open>axis=1\<close>: entry \<open>i\<close> of the result is entry
  \<open>(i - shift) mod n\<close> of the argument.\<close>

definition roll0 :: "nat \<Rightarrow> int \<Rightarrow> 'a array2 \<Rightarrow> 'a array2" where
  "roll0 n shift a = (\<lambda>i j. a (nat ((int i - shift) mod int n)) j)"

definition roll1 :: "nat \<Rightarrow> int \<Rightarrow> 'a array2 \<Rightarrow> 'a array2" where
  "roll1 n shift a = (\<lambda>i j. a i (nat ((int j - shift) mod int n)))"

text \<open>Element-wise \<^verbatim>\<open>&\<close>, \<^verbatim>\<open>|\<close>, \<^verbatim>\<open>~\<close> of boolean arrays, the product of an integer
  array with a boolean one, \<^verbatim>\<open>np.where\<close>, and the element-wise maximum.\<close>

definition mask_and :: "bool array2 \<Rightarrow> bool array2 \<Rightarrow> bool array2" where
  "mask_and a b = (\<lambda>i j. a i j \<and> b i j)"

definition mask_or :: "bool array2 \<Rightarrow> bool array2 \<Rightarrow> bool array2" where
  "mask_or a b = (\<lambda>i j. a i j \<or> b i j)"

definition mask_not :: "bool array2 \<Rightarrow> bool array2" where
  "mask_not a = (\<lambda>i j. \<not> a i j)"

definition times_mask :: "int array2 \<Rightarrow> bool array2 \<Rightarrow> int array2" where
  "times_mask a m = (\<lambda>i j. if m i j then a i j else 0)"

definition np_where :: "bool array2 \<Rightarrow> 'a array2 \<Rightarrow> 'a array2 \<Rightarrow> 'a array2" where
  "np_where m a b = (\<lambda>i j. if m i j then a i j else b i j)"

definition maximum4 :: "int array2 \<Rightarrow> int array2 \<Rightarrow> int array2 \<Rightarrow> int array2 \<Rightarrow> int array2" where
  "maximum4 a b c d = (\<lambda>i j. max (max (max (a i j) (b i j)) (c i j)) (d i j))"

text \<open>\<^verbatim>\<open>np.sum(mask)\<close>: the number of entries of the array where the mask holds.\<close>

definition np_sum :: "nat \<Rightarrow> bool array2 \<Rightarrow> nat" where
  "np_sum n m = length (filter (entry m) (cells n))"

text \<open>\<^verbatim>\<open>a[mask]\<close>: the entries of \<open>a\<close> under the mask, in row-major order.\<close>

definition select :: "nat \<Rightarrow> 'a array2 \<Rightarrow> bool array2 \<Rightarrow> 'a list" where
  "select n a m = map (entry a) (filter (entry m) (cells n))"

text \<open>\<^verbatim>\<open>a[mask] = v\<close> with a scalar, and \<^verbatim>\<open>a[mask] = b[mask]\<close>.\<close>

definition assign :: "'a array2 \<Rightarrow> bool array2 \<Rightarrow> 'a \<Rightarrow> 'a array2" where
  "assign a m v = (\<lambda>i j. if m i j then v else a i j)"

definition assign_from :: "'a array2 \<Rightarrow> bool array2 \<Rightarrow> 'a array2 \<Rightarrow> 'a array2" where
  "assign_from a m b = (\<lambda>i j. if m i j then b i j else a i j)"

text \<open>\<^verbatim>\<open>a[mask] = vals\<close> with a one-dimensional array of values: the \<open>k\<close>-th entry under
  the mask, in row-major order, receives \<open>vals[k]\<close>.\<close>

definition mask_index :: "nat \<Rightarrow> bool array2 \<Rightarrow> nat \<times> nat \<Rightarrow> nat" where
  "mask_index n m c = length (filter (entry m) (takeWhile (\<lambda>c'. c' \<noteq> c) (cells n)))"

definition assign_seq :: "nat \<Rightarrow> 'a array2 \<Rightarrow> bool array2 \<Rightarrow> 'a list \<Rightarrow> 'a array2" where
  "assign_seq n a m vals = (\<lambda>i j. if m i j then vals ! mask_index n m (i, j) else a i j)"

text \<open>\<^verbatim>\<open>np.arange(lo, lo + k)\<close>, \<^verbatim>\<open>np.unique\<close> and \<^verbatim>\<open>np.isin\<close>.\<close>

definition arange :: "int \<Rightarrow> nat \<Rightarrow> int list" where
  "arange lo k = map (\<lambda>x. lo + int x) [0..<k]"

definition np_unique :: "int list \<Rightarrow> int list" where
  "np_unique xs = sort (remdups xs)"

definition np_isin :: "int array2 \<Rightarrow> int list \<Rightarrow> bool array2" where
  "np_isin a xs = (\<lambda>i j. a i j \<in> set xs)"

subsection \<open>Bounded deques\<close>

record 'a deque =
  maxlen :: nat
  items :: "'a list"

definition new_deque :: "nat \<Rightarrow> 'a deque" where
  "new_deque m = \<lparr>maxlen = m, items = []\<rparr>"

text \<open>\<^verbatim>\<open>append\<close> on a full deque drops the oldest item first; a deque of bound 0 stays
  empty.\<close>

definition deque_append :: "'a deque \<Rightarrow> 'a \<Rightarrow> 'a deque" where
  "deque_append q x =
     (if maxlen q = 0 then q
      else if length (items q) \<ge> maxlen q then q\<lparr>items := tl (items q) @ [x]\<rparr>
      else q\<lparr>items := items q @ [x]\<rparr>)"

subsection \<open>The simulator state\<close>

record cluster_info =
  birth :: int
  death :: "int option"
  max_size :: nat
  sizes :: "(int \<times> nat) deque"

record model =
  grid_size :: nat
  p_tree :: real
  p_fire :: real
  grid :: "int array2"
  fire_cluster_ids :: "int array2"
  next_cluster_id :: int
  step_count :: int
  window_size :: nat
  active_fire_history :: "(int \<times> nat) deque"
  cluster_registry :: "int \<rightharpoonup> cluster_info"
  current_clusters :: "(int \<times> nat) list"

datatype error = ValueError | MemoryError

definition zeros :: "int array2" where
  "zeros = (\<lambda>i j. 0)"

text \<open>The largest size of an array in bytes that numpy accepts on a 64-bit platform.\<close>

definition max_array_bytes :: int where
  "max_array_bytes = 2 ^ 63 - 1"

text \<open>The failures of \<^verbatim>\<open>np.zeros((n, n), dtype=int)\<close>, the first statement of the constructor that
  looks at the grid size: \<^verbatim>\<open>ValueError\<close> on a negative dimension and on an array of more than
  \<open>max_array_bytes\<close> bytes (eight bytes per cell), \<^verbatim>\<open>MemoryError\<close> when the machine cannot give
  the memory. The last depends on the machine: \<open>mem\<close> is the number of cells of the largest
  grid whose arrays it can hold. The other arrays of the constructor have the same shape.\<close>

definition np_zeros_error :: "nat \<Rightarrow> int \<Rightarrow> error option" where
  "np_zeros_error mem n =
     (if n < 0 then Some ValueError
      else if 8 * n * n > max_array_bytes then Some ValueError
      else if n * n > int mem then Some MemoryError
      else None)"

text \<open>The constructor. Nothing in it inspects \<open>p_tree\<close> or \<open>p_fire\<close>, and the grid size is
  inspected by the array allocation only.\<close>

definition init :: "nat \<Rightarrow> int \<Rightarrow> real \<Rightarrow> real \<Rightarrow> real array2 \<Rightarrow> error + model" where
  "init mem gs pt pf rnd =
     (case np_zeros_error mem gs of
        Some e \<Rightarrow> Inl e
      | None \<Rightarrow>
        let initial_tree_mask = (\<lambda>i j. rnd i j < 0.3)
        in Inr \<lparr>grid_size = nat gs, p_tree = pt, p_fire = pf,
                grid = assign zeros initial_tree_mask 1,
                fire_cluster_ids = zeros,
                next_cluster_id = 1,
                step_count = 0,
                window_size = 6000,
                active_fire_history = new_deque 6000,
                cluster_registry = Map.empty,
                current_clusters = []\<rparr>)"

subsection \<open>One step: the grid and the cluster ids\<close>

text \<open>\<^verbatim>\<open>step\<close> has two halves, which the source marks by comments: the cluster logic, which
  computes the new grid, the new cluster-id grid and the counter from the old ones
  (\<open>update_grid\<close>, every intermediate array of the source under its own name), and the
  data collection, which reads the new grids and updates the step counter, the history,
  the registry and \<open>current_clusters\<close> (\<open>collect_data\<close>).\<close>

text \<open>The draws of one call of \<^verbatim>\<open>step\<close>: the array compared with \<open>p_tree\<close> and the array
  compared with \<open>p_fire\<close>.\<close>

record draws =
  rnd_tree :: "real array2"
  rnd_fire :: "real array2"

definition empty_mask :: "model \<Rightarrow> bool array2" where
  "empty_mask s = (\<lambda>i j. grid s i j = 0)"

definition trees :: "model \<Rightarrow> bool array2" where
  "trees s = (\<lambda>i j. grid s i j = 1)"

definition burning :: "model \<Rightarrow> bool array2" where
  "burning s = (\<lambda>i j. grid s i j = 2)"

definition burnt_history :: "model \<Rightarrow> bool array2" where
  "burnt_history s = (\<lambda>i j. grid s i j = 3)"

definition new_trees :: "draws \<Rightarrow> model \<Rightarrow> bool array2" where
  "new_trees d s = mask_and (empty_mask s) (\<lambda>i j. rnd_tree d i j < p_tree s)"

text \<open>The four shifted copies of the burning mask, each with the wrapped row or column
  masked out.\<close>

definition up :: "model \<Rightarrow> bool array2" where
  "up s = mask_and (roll0 (grid_size s) (- 1) (burning s))
            (\<lambda>i j. int i < int (grid_size s) - 1)"

definition down :: "model \<Rightarrow> bool array2" where
  "down s = mask_and (roll0 (grid_size s) 1 (burning s)) (\<lambda>i j. int i > 0)"

definition left :: "model \<Rightarrow> bool array2" where
  "left s = mask_and (roll1 (grid_size s) (- 1) (burning s))
              (\<lambda>i j. int j < int (grid_size s) - 1)"

definition right :: "model \<Rightarrow> bool array2" where
  "right s = mask_and (roll1 (grid_size s) 1 (burning s)) (\<lambda>i j. int j > 0)"

definition fire_neighbors_mask :: "model \<Rightarrow> bool array2" where
  "fire_neighbors_mask s = mask_or (mask_or (mask_or (up s) (down s)) (left s)) (right s)"

definition lightning_mask :: "draws \<Rightarrow> model \<Rightarrow> bool array2" where
  "lightning_mask d s = (\<lambda>i j. rnd_fire d i j < p_fire s)"

definition ignited_trees :: "draws \<Rightarrow> model \<Rightarrow> bool array2" where
  "ignited_trees d s =
     mask_and (trees s) (mask_or (fire_neighbors_mask s) (lightning_mask d s))"

definition max_neighbor_id :: "model \<Rightarrow> int array2" where
  "max_neighbor_id s =
     (let n = grid_size s;
          current_cluster_ids = fire_cluster_ids s;
          id_up = times_mask (roll0 n (- 1) current_cluster_ids) (up s);
          id_down = times_mask (roll0 n 1 current_cluster_ids) (down s);
          id_left = times_mask (roll1 n (- 1) current_cluster_ids) (left s);
          id_right = times_mask (roll1 n 1 current_cluster_ids) (right s)
      in maximum4 id_up id_down id_left id_right)"

definition propagated_mask :: "draws \<Rightarrow> model \<Rightarrow> bool array2" where
  "propagated_mask d s = mask_and (ignited_trees d s) (fire_neighbors_mask s)"

definition new_lightning_mask :: "draws \<Rightarrow> model \<Rightarrow> bool array2" where
  "new_lightning_mask d s = mask_and (ignited_trees d s) (mask_not (fire_neighbors_mask s))"

definition num_new_fires :: "draws \<Rightarrow> model \<Rightarrow> nat" where
  "num_new_fires d s = np_sum (grid_size s) (new_lightning_mask d s)"

text \<open>The ids minted by the step: \<^verbatim>\<open>np.arange(next_cluster_id, next_cluster_id + num_new_fires)\<close>.\<close>

definition new_ids :: "draws \<Rightarrow> model \<Rightarrow> int list" where
  "new_ids d s = arange (next_cluster_id s) (num_new_fires d s)"

definition new_cluster_ids :: "draws \<Rightarrow> model \<Rightarrow> int array2" where
  "new_cluster_ids d s =
     (let propagated = assign_from zeros (propagated_mask d s) (max_neighbor_id s)
      in if num_new_fires d s > 0
         then assign_seq (grid_size s) propagated (new_lightning_mask d s) (new_ids d s)
         else propagated)"

definition ash_ids :: "model \<Rightarrow> int array2" where
  "ash_ids s =
     np_where (burnt_history s) (fire_cluster_ids s)
       (np_where (burning s) (fire_cluster_ids s) zeros)"

definition active_ids :: "draws \<Rightarrow> model \<Rightarrow> int list" where
  "active_ids d s = np_unique (select (grid_size s) (new_cluster_ids d s) (ignited_trees d s))"

definition active_ash_mask :: "draws \<Rightarrow> model \<Rightarrow> bool array2" where
  "active_ash_mask d s =
     mask_and (np_isin (ash_ids s) (active_ids d s)) (\<lambda>i j. ash_ids s i j > 0)"

text \<open>The new grid and the new cluster-id grid, assigned in the order of the source
  (a later assignment overwrites an earlier one), and the counter.\<close>

definition update_grid :: "draws \<Rightarrow> model \<Rightarrow> model" where
  "update_grid d s =
     s\<lparr>grid :=
         assign
           (assign
             (assign
               (assign zeros (mask_and (trees s) (mask_not (ignited_trees d s))) 1)
               (new_trees d s) 1)
             (active_ash_mask d s) 3)
           (ignited_trees d s) 2,
       fire_cluster_ids :=
         assign_from
           (assign_from zeros (ignited_trees d s) (new_cluster_ids d s))
           (active_ash_mask d s) (ash_ids s),
       next_cluster_id :=
         (if num_new_fires d s > 0 then next_cluster_id s + int (num_new_fires d s)
          else next_cluster_id s)\<rparr>"

subsection \<open>One step: data collection\<close>

text \<open>\<^verbatim>\<open>set(fire_cluster_ids[burning_cells_mask])\<close> with 0 discarded: the distinct ids of the
  burning cells. The loop over this set treats every id on its own, so the order of the
  list is immaterial.\<close>

definition active_cluster_ids :: "model \<Rightarrow> int list" where
  "active_cluster_ids t =
     removeAll 0 (remdups (select (grid_size t) (fire_cluster_ids t) (burning t)))"

text \<open>The size recorded for an id: \<^verbatim>\<open>np.sum(self.fire_cluster_ids == cluster_id)\<close>.\<close>

definition cluster_size :: "model \<Rightarrow> int \<Rightarrow> nat" where
  "cluster_size t cluster_id = np_sum (grid_size t) (\<lambda>i j. fire_cluster_ids t i j = cluster_id)"

text \<open>The body of the loop over the active ids; \<open>stp\<close> is the incremented step counter.
  The entry read back after the membership test is the one found, or the one just
  created.\<close>

definition track_cluster ::
  "model \<Rightarrow> int \<Rightarrow> int \<Rightarrow> (int \<times> nat) list \<times> (int \<rightharpoonup> cluster_info)
     \<Rightarrow> (int \<times> nat) list \<times> (int \<rightharpoonup> cluster_info)" where
  "track_cluster t stp cluster_id acc =
     (let new_current_clusters = fst acc;
          registry = snd acc;
          csize = cluster_size t cluster_id;
          cluster_info =
            (case registry cluster_id of
               None \<Rightarrow> \<lparr>birth = stp, death = None, max_size = csize,
                         sizes = new_deque (window_size t)\<rparr>
             | Some info \<Rightarrow> info);
          appended = cluster_info\<lparr>sizes := deque_append (sizes cluster_info) (stp, csize)\<rparr>;
          updated = (if csize > max_size appended then appended\<lparr>max_size := csize\<rparr>
                     else appended)
      in (new_current_clusters @ [(cluster_id, csize)], registry(cluster_id \<mapsto> updated)))"

text \<open>The body of the loop over the ids that died.\<close>

definition mark_death :: "int \<Rightarrow> int \<Rightarrow> (int \<rightharpoonup> cluster_info) \<Rightarrow> (int \<rightharpoonup> cluster_info)" where
  "mark_death stp cluster_id registry =
     (case registry cluster_id of
        None \<Rightarrow> registry
      | Some info \<Rightarrow>
          if death info = None then registry(cluster_id \<mapsto> info\<lparr>death := Some stp\<rparr>)
          else registry)"

text \<open>Pruning: every entry with a death step more than \<open>window_size\<close> steps back is
  deleted.\<close>

definition prune :: "int \<Rightarrow> nat \<Rightarrow> (int \<rightharpoonup> cluster_info) \<Rightarrow> (int \<rightharpoonup> cluster_info)" where
  "prune stp w registry =
     (\<lambda>cluster_id.
        case registry cluster_id of
          None \<Rightarrow> None
        | Some info \<Rightarrow>
            (case death info of
               None \<Rightarrow> Some info
             | Some dth \<Rightarrow> if stp - dth > int w then None else Some info))"

text \<open>\<^verbatim>\<open>previous_cluster_ids - active_cluster_ids\<close>: the keys of \<open>current_clusters\<close> that
  are not active any more.\<close>

definition died_cluster_ids :: "model \<Rightarrow> int list" where
  "died_cluster_ids t =
     filter (\<lambda>k. k \<notin> set (active_cluster_ids t)) (remdups (map fst (current_clusters t)))"

text \<open>The data collection, on the state \<open>t\<close> that holds the new grids and the old
  counter, history, registry and \<open>current_clusters\<close>.\<close>

definition collect_data :: "model \<Rightarrow> model" where
  "collect_data t =
     (let stp = step_count t + 1;
          total_fire_count = np_sum (grid_size t) (burning t);
          history = deque_append (active_fire_history t) (stp, total_fire_count);
          tracked = fold (track_cluster t stp) (active_cluster_ids t) ([], cluster_registry t);
          marked = fold (mark_death stp) (died_cluster_ids t) (snd tracked);
          pruned = prune stp (window_size t) marked
      in t\<lparr>step_count := stp,
           active_fire_history := history,
           cluster_registry := pruned,
           current_clusters := fst tracked\<rparr>)"

definition step :: "draws \<Rightarrow> model \<Rightarrow> model" where
  "step d s = collect_data (update_grid d s)"

text \<open>A run: one array pair of draws per step.\<close>

fun run :: "model \<Rightarrow> draws list \<Rightarrow> model" where
  "run s [] = s"
| "run s (d # ds) = run (step d s) ds"

text \<open>The states of a simulator: what the constructor returns, and what \<open>step\<close> makes of
  such a state, whatever the draws.\<close>

inductive reachable :: "model \<Rightarrow> bool" where
  reachable_init: "init mem gs pt pf rnd = Inr s \<Longrightarrow> reachable s"
| reachable_step: "reachable s \<Longrightarrow> reachable (step d s)"

subsection \<open>Notions of the specification\<close>

text \<open>The four neighbours of a cell inside the grid (no wrap-around), and those of them that
  burn.\<close>

definition neighbours :: "nat \<Rightarrow> nat \<times> nat \<Rightarrow> (nat \<times> nat) list" where
  "neighbours n c =
     (if Suc (fst c) < n then [(Suc (fst c), snd c)] else []) @
     (if 0 < fst c then [(fst c - 1, snd c)] else []) @
     (if Suc (snd c) < n then [(fst c, Suc (snd c))] else []) @
     (if 0 < snd c then [(fst c, snd c - 1)] else [])"

definition burning_neighbours :: "model \<Rightarrow> nat \<times> nat \<Rightarrow> (nat \<times> nat) list" where
  "burning_neighbours s c = filter (\<lambda>c'. entry (grid s) c' = 2) (neighbours (grid_size s) c)"

text \<open>The same, cell by cell: some neighbour inside the grid burns.\<close>

definition has_fire_neighbor :: "model \<Rightarrow> nat \<Rightarrow> nat \<Rightarrow> bool" where
  "has_fire_neighbor s i j \<longleftrightarrow>
     (Suc i < grid_size s \<and> grid s (Suc i) j = 2) \<or> (0 < i \<and> grid s (i - 1) j = 2) \<or>
     (Suc j < grid_size s \<and> grid s i (Suc j) = 2) \<or> (0 < j \<and> grid s i (j - 1) = 2)"

text \<open>The number of burning cells, and of ash cells, that carry an id; and whether any cell
  carries it.\<close>

definition burning_count :: "model \<Rightarrow> int \<Rightarrow> nat" where
  "burning_count s k =
     length (filter (\<lambda>c. entry (grid s) c = 2 \<and> entry (fire_cluster_ids s) c = k)
       (cells (grid_size s)))"

definition ash_count :: "model \<Rightarrow> int \<Rightarrow> nat" where
  "ash_count s k =
     length (filter (\<lambda>c. entry (grid s) c = 3 \<and> entry (fire_cluster_ids s) c = k)
       (cells (grid_size s)))"

definition carried :: "model \<Rightarrow> int \<Rightarrow> bool" where
  "carried s k \<longleftrightarrow> (\<exists>c \<in> set (cells (grid_size s)). entry (fire_cluster_ids s) c = k)"

text \<open>The ids minted along a run, in the order of minting.\<close>

fun minted :: "model \<Rightarrow> draws list \<Rightarrow> int list" where
  "minted s [] = []"
| "minted s (d # ds) = new_ids d s @ minted (step d s) ds"

text \<open>\<open>t\<close> is the first step of a run, counted from 1, at which an id has no burning
  cell.\<close>

definition first_dead_step :: "model \<Rightarrow> draws list \<Rightarrow> int \<Rightarrow> nat \<Rightarrow> bool" where
  "first_dead_step s0 ds k t \<longleftrightarrow>
     1 \<le> t \<and> t \<le> length ds \<and> burning_count (run s0 (take t ds)) k = 0 \<and>
     (\<forall>m \<in> {1..<t}. burning_count (run s0 (take m ds)) k \<noteq> 0)"

text \<open>Appending to a sequence of capacity \<open>w\<close> with first-in, first-out eviction.\<close>

definition fifo_push :: "nat \<Rightarrow> 'a list \<Rightarrow> 'a \<Rightarrow> 'a list" where
  "fifo_push w xs x = (if length xs < w then xs @ [x] else tl xs @ [x])"

text \<open>The sizes an id had in the states of a run, from step \<open>b\<close> on, at the steps where
  it was active.\<close>

definition lifetime_sizes :: "model \<Rightarrow> draws list \<Rightarrow> int \<Rightarrow> int \<Rightarrow> nat list" where
  "lifetime_sizes s0 ds k b =
     map (\<lambda>m. cluster_size (run s0 (take m ds)) k)
       (filter (\<lambda>m. k \<in> set (active_cluster_ids (run s0 (take m ds))))
          [nat b..<Suc (length ds)])"

subsection \<open>The registry update, key by key\<close>

text \<open>What the three loops over the registry do to the entry of one id: the loop over the
  active ids, the loop over the ids that died, and pruning.\<close>

definition tracked_info :: "model \<Rightarrow> int \<Rightarrow> int \<Rightarrow> cluster_info option \<Rightarrow> cluster_info" where
  "tracked_info t stp k old =
     (let csize = cluster_size t k;
          cluster_info =
            (case old of
               None \<Rightarrow> \<lparr>birth = stp, death = None, max_size = csize,
                         sizes = new_deque (window_size t)\<rparr>
             | Some info \<Rightarrow> info)
      in cluster_info\<lparr>sizes := deque_append (sizes cluster_info) (stp, csize),
                      max_size := max (max_size cluster_info) csize\<rparr>)"

definition marked_info :: "int \<Rightarrow> cluster_info \<Rightarrow> cluster_info" where
  "marked_info stp info = (if death info = None then info\<lparr>death := Some stp\<rparr> else info)"

definition pruned_info :: "int \<Rightarrow> nat \<Rightarrow> cluster_info option \<Rightarrow> cluster_info option" where
  "pruned_info stp w e =
     (case e of
        None \<Rightarrow> None
      | Some info \<Rightarrow>
          (case death info of
             None \<Rightarrow> Some info
           | Some dth \<Rightarrow> if stp - dth > int w then None else Some info))"

subsection \<open>Invariants\<close>

text \<open>The coupling of the two grids: the ids are non-negative and below the counter, and
  positive exactly on the burning and ash cells.\<close>

definition ids_ok :: "model \<Rightarrow> bool" where
  "ids_ok s \<longleftrightarrow>
     1 \<le> next_cluster_id s \<and>
     (\<forall>c \<in> set (cells (grid_size s)).
        0 \<le> entry (fire_cluster_ids s) c \<and>
        entry (fire_cluster_ids s) c < next_cluster_id s \<and>
        (0 < entry (fire_cluster_ids s) c \<longleftrightarrow>
           entry (grid s) c = 2 \<or> entry (grid s) c = 3))"

text \<open>The registry keys are ids already minted, and a dead id is on no cell.\<close>

definition registry_ok :: "model \<Rightarrow> bool" where
  "registry_ok s \<longleftrightarrow>
     (\<forall>k e. cluster_registry s k = Some e \<longrightarrow>
        0 < k \<and> k < next_cluster_id s \<and> (death e \<noteq> None \<longrightarrow> \<not> carried s k))"

text \<open>Every deque has the bound \<open>window_size\<close>, the constant 6000 of the constructor, and
  respects it.\<close>

definition history_ok :: "model \<Rightarrow> bool" where
  "history_ok s \<longleftrightarrow>
     window_size s = 6000 \<and>
     maxlen (active_fire_history s) = window_size s \<and>
     length (items (active_fire_history s)) \<le> window_size s \<and>
     (\<forall>k e. cluster_registry s k = Some e \<longrightarrow>
        maxlen (sizes e) = window_size s \<and> length (items (sizes e)) \<le> window_size s)"

text \<open>The \<open>max_size\<close> of every entry is the maximum of the sizes of its lifetime.\<close>

definition lifetime_ok :: "model \<Rightarrow> draws list \<Rightarrow> bool" where
  "lifetime_ok s0 ds \<longleftrightarrow>
     (\<forall>k e. cluster_registry (run s0 ds) k = Some e \<longrightarrow>
        1 \<le> birth e \<and> birth e \<le> int (length ds) \<and>
        lifetime_sizes s0 ds k (birth e) \<noteq> [] \<and>
        max_size e = Max (set (lifetime_sizes s0 ds k (birth e))))"

subsection \<open>Concrete inputs\<close>

text \<open>A machine with memory for \<open>2 ^ 30\<close> cells; and draws that are all 0.\<close>

definition plenty :: nat where
  "plenty = 2 ^ 30"

definition no_draws :: "real array2" where
  "no_draws = (\<lambda>i j. 0)"

text \<open>A 2 by 2 grid as the constructor returns it when every draw is below 0.3 (all four
  cells are trees), with \<open>p_tree = 0\<close> and \<open>p_fire = 1/2\<close>. Lightning strikes the
  corner \<open>(0, 0)\<close> in the first step and nowhere afterwards: the fire spreads to the two
  neighbours of the corner, then to the opposite corner, then goes out.\<close>

definition forest :: model where
  "forest = projr (init plenty 2 0 (1/2) no_draws)"

definition strike_corner :: draws where
  "strike_corner = \<lparr>rnd_tree = no_draws, rnd_fire = (\<lambda>i j. if i = 0 \<and> j = 0 then 0 else 3/4)\<rparr>"

definition calm :: draws where
  "calm = \<lparr>rnd_tree = no_draws, rnd_fire = (\<lambda>i j. 3/4)\<rparr>"

definition f1 :: model where "f1 = step strike_corner forest"

definition f2 :: model where "f2 = step calm f1"

definition f3 :: model where "f3 = step calm f2"

definition f4 :: model where "f4 = step calm f3"

text \<open>The registry entry of the fire of the 2 by 2 grid once it is out.\<close>

definition burnt_out :: cluster_info where
  "burnt_out = \<lparr>birth = 1, death = Some 4, max_size = 4,
                 sizes = \<lparr>maxlen = 6000, items = [(1, 1), (2, 3), (3, 4)]\<rparr>\<rparr>"

text \<open>Scenario B on a 3 by 3 grid: \<open>p_tree = 0\<close>, \<open>p_fire = 0\<close>, and a grid set by hand
  after construction, with a burning cell of id 1 at \<open>(0, 0)\<close>, a burning cell of id 2 at
  \<open>(2, 2)\<close>, a tree at \<open>(0, 1)\<close> and a tree at \<open>(2, 1)\<close>:
  \<^verbatim>\<open>
  2 1 0
  0 0 0
  0 1 2
  \<close>\<close>

definition scenario_b_grid :: "int array2" where
  "scenario_b_grid =
     (\<lambda>i j. if (i = 0 \<and> j = 0) \<or> (i = 2 \<and> j = 2) then 2
            else if (i = 0 \<or> i = 2) \<and> j = 1 then 1 else 0)"

definition scenario_b_ids :: "int array2" where
  "scenario_b_ids = (\<lambda>i j. if i = 0 \<and> j = 0 then 1 else if i = 2 \<and> j = 2 then 2 else 0)"

definition scenario_b :: model where
  "scenario_b =
     (projr (init plenty 3 0 0 no_draws))\<lparr>grid := scenario_b_grid, fire_cluster_ids := scenario_b_ids\<rparr>"

definition still :: draws where
  "still = \<lparr>rnd_tree = no_draws, rnd_fire = no_draws\<rparr>"

definition sb1 :: model where "sb1 = step still scenario_b"

definition sb2 :: model where "sb2 = step still sb1"

text \<open>Scenario B with the two burning cells alone, no tree beside them:
  \<^verbatim>\<open>
  2 0 0
  0 0 0
  0 0 2
  \<close>\<close>

definition bare_grid :: "int array2" where
  "bare_grid = (\<lambda>i j. if (i = 0 \<and> j = 0) \<or> (i = 2 \<and> j = 2) then 2 else 0)"

definition scenario_b_bare :: model where
  "scenario_b_bare =
     (projr (init plenty 3 0 0 no_draws))\<lparr>grid := bare_grid, fire_cluster_ids := scenario_b_ids\<rparr>"

text \<open>The registry entry of id 1 in scenario B, while it burns and once it is out.\<close>

definition b_alive :: cluster_info where
  "b_alive = \<lparr>birth = 1, death = None, max_size = 2,
               sizes = \<lparr>maxlen = 6000, items = [(1, 2)]\<rparr>\<rparr>"

definition b_dead :: cluster_info where
  "b_dead = \<lparr>birth = 1, death = Some 2, max_size = 2,
              sizes = \<lparr>maxlen = 6000, items = [(1, 2)]\<rparr>\<rparr>"

section \<open>Reading the step cell by cell\<close>

lemma in_cells: "(i, j) \<in> set (cells n) \<longleftrightarrow> i < n \<and> j < n"
  by (auto simp: cells_def)

lemma distinct_cells: "distinct (cells n)"
  by (simp add: cells_def distinct_product)

lemma up_iff: "i < grid_size s \<Longrightarrow> up s i j \<longleftrightarrow> Suc i < grid_size s \<and> grid s (Suc i) j = 2"
  by (auto simp: up_def mask_and_def roll0_def burning_def nat_add_distrib mod_pos_pos_trivial)

lemma down_iff: "i < grid_size s \<Longrightarrow> down s i j \<longleftrightarrow> 0 < i \<and> grid s (i - 1) j = 2"
  by (auto simp: down_def mask_and_def roll0_def burning_def nat_diff_distrib mod_pos_pos_trivial)

lemma left_iff: "j < grid_size s \<Longrightarrow> left s i j \<longleftrightarrow> Suc j < grid_size s \<and> grid s i (Suc j) = 2"
  by (auto simp: left_def mask_and_def roll1_def burning_def nat_add_distrib mod_pos_pos_trivial)

lemma right_iff: "j < grid_size s \<Longrightarrow> right s i j \<longleftrightarrow> 0 < j \<and> grid s i (j - 1) = 2"
  by (auto simp: right_def mask_and_def roll1_def burning_def nat_diff_distrib mod_pos_pos_trivial)

lemma filter_takeWhile_less:
  "c \<in> set xs \<Longrightarrow> P c \<Longrightarrow> length (filter P (takeWhile (\<lambda>x. x \<noteq> c) xs)) < length (filter P xs)"
  by (induction xs) (auto simp: less_Suc_eq_le)

lemma filter_takeWhile_inj:
  "distinct xs \<Longrightarrow> c \<in> set xs \<Longrightarrow> c' \<in> set xs \<Longrightarrow> P c \<Longrightarrow> P c' \<Longrightarrow>
   length (filter P (takeWhile (\<lambda>x. x \<noteq> c) xs)) = length (filter P (takeWhile (\<lambda>x. x \<noteq> c') xs))
   \<Longrightarrow> c = c'"
proof (induction xs)
  case Nil
  then show ?case by simp
next
  case (Cons x xs)
  show ?case
  proof (cases "x = c \<or> x = c'")
    case True
    with Cons.prems show ?thesis by (auto split: if_splits)
  next
    case False
    with Cons show ?thesis by (auto split: if_splits)
  qed
qed

lemma mask_index_less:
  "c \<in> set (cells n) \<Longrightarrow> entry m c \<Longrightarrow> mask_index n m c < np_sum n m"
  unfolding mask_index_def np_sum_def by (rule filter_takeWhile_less)

lemma mask_index_inj:
  "c \<in> set (cells n) \<Longrightarrow> c' \<in> set (cells n) \<Longrightarrow> entry m c \<Longrightarrow> entry m c' \<Longrightarrow>
   mask_index n m c = mask_index n m c' \<Longrightarrow> c = c'"
  unfolding mask_index_def by (rule filter_takeWhile_inj[OF distinct_cells])

lemma filter_takeWhile_index:
  "distinct xs \<Longrightarrow>
   map (\<lambda>c. length (filter P (takeWhile (\<lambda>x. x \<noteq> c) xs))) (filter P xs) =
     [0..<length (filter P xs)]"
proof (induction xs)
  case Nil
  then show ?case by simp
next
  case (Cons x xs)
  have ne: "\<And>c. c \<in> set (filter P xs) \<Longrightarrow> c \<noteq> x" using Cons.prems by auto
  have IH: "map (\<lambda>c. length (filter P (takeWhile (\<lambda>x. x \<noteq> c) xs))) (filter P xs) =
     [0..<length (filter P xs)]" using Cons by simp
  show ?case
  proof (cases "P x")
    case True
    have "map (\<lambda>c. length (filter P (takeWhile (\<lambda>y. y \<noteq> c) (x # xs)))) (filter P xs) =
          map (\<lambda>c. Suc (length (filter P (takeWhile (\<lambda>y. y \<noteq> c) xs)))) (filter P xs)"
      by (rule map_cong[OF refl]) (use ne True in auto)
    also have "\<dots> = map Suc (map (\<lambda>c. length (filter P (takeWhile (\<lambda>y. y \<noteq> c) xs))) (filter P xs))"
      by simp
    also have "\<dots> = map Suc [0..<length (filter P xs)]" by (simp only: IH)
    finally have tl: "map (\<lambda>c. length (filter P (takeWhile (\<lambda>y. y \<noteq> c) (x # xs)))) (filter P xs) =
        map Suc [0..<length (filter P xs)]" .
    have "[0..<Suc (length (filter P xs))] = 0 # map Suc [0..<length (filter P xs)]"
      by (simp add: map_Suc_upt upt_conv_Cons del: upt_Suc)
    with tl True show ?thesis by (simp del: upt_Suc)
  next
    case False
    have "map (\<lambda>c. length (filter P (takeWhile (\<lambda>y. y \<noteq> c) (x # xs)))) (filter P xs) =
          map (\<lambda>c. length (filter P (takeWhile (\<lambda>y. y \<noteq> c) xs))) (filter P xs)"
      by (rule map_cong[OF refl]) (use ne False in auto)
    then show ?thesis using False IH by simp
  qed
qed

lemma arange_nth: "k < m \<Longrightarrow> arange lo m ! k = lo + int k"
  by (simp add: arange_def)

text \<open>Pointwise reading of the step on the grid.\<close>

lemma fire_neighbors_mask_iff:
  "i < grid_size s \<Longrightarrow> j < grid_size s \<Longrightarrow> fire_neighbors_mask s i j = has_fire_neighbor s i j"
  by (simp add: fire_neighbors_mask_def mask_or_def up_iff down_iff left_iff right_iff
      has_fire_neighbor_def)

lemma ignited_trees_iff:
  "i < grid_size s \<Longrightarrow> j < grid_size s \<Longrightarrow>
   ignited_trees d s i j \<longleftrightarrow>
     grid s i j = 1 \<and> (has_fire_neighbor s i j \<or> rnd_fire d i j < p_fire s)"
  by (simp add: ignited_trees_def mask_and_def mask_or_def trees_def lightning_mask_def
      fire_neighbors_mask_iff)

lemma ignited_trees_tree: "ignited_trees d s i j \<Longrightarrow> grid s i j = 1"
  by (simp add: ignited_trees_def mask_and_def trees_def)

lemma ash_ids_eq:
  "ash_ids s i j = (if grid s i j = 2 \<or> grid s i j = 3 then fire_cluster_ids s i j else 0)"
  by (simp add: ash_ids_def np_where_def burning_def burnt_history_def zeros_def)

lemma set_active_ids:
  "x \<in> set (active_ids d s) \<longleftrightarrow>
     (\<exists>c \<in> set (cells (grid_size s)). entry (ignited_trees d s) c \<and>
         entry (new_cluster_ids d s) c = x)"
  by (auto simp: active_ids_def np_unique_def select_def)

lemma active_ash_mask_iff:
  "active_ash_mask d s i j \<longleftrightarrow>
     (grid s i j = 2 \<or> grid s i j = 3) \<and> fire_cluster_ids s i j > 0 \<and>
     (\<exists>c \<in> set (cells (grid_size s)). entry (ignited_trees d s) c \<and>
         entry (new_cluster_ids d s) c = fire_cluster_ids s i j)"
  unfolding active_ash_mask_def mask_and_def np_isin_def set_active_ids
  by (auto simp: ash_ids_eq)

lemma active_ash_not_ignited: "active_ash_mask d s i j \<Longrightarrow> \<not> ignited_trees d s i j"
  by (auto simp: active_ash_mask_iff dest: ignited_trees_tree)

lemma grid_update_grid:
  "grid (update_grid d s) i j =
     (if ignited_trees d s i j then 2
      else if active_ash_mask d s i j then 3
      else if new_trees d s i j \<or> grid s i j = 1 then 1 else 0)"
  by (simp add: update_grid_def assign_def mask_and_def mask_not_def trees_def zeros_def)

lemma ids_update_grid:
  "fire_cluster_ids (update_grid d s) i j =
     (if ignited_trees d s i j then new_cluster_ids d s i j
      else if active_ash_mask d s i j then fire_cluster_ids s i j
      else 0)"
  by (auto simp: update_grid_def assign_from_def zeros_def ash_ids_eq active_ash_mask_iff
      dest: ignited_trees_tree)

lemma next_update_grid:
  "next_cluster_id (update_grid d s) = next_cluster_id s + int (num_new_fires d s)"
  by (simp add: update_grid_def)

lemma update_grid_frame [simp]:
  "grid_size (update_grid d s) = grid_size s"
  "p_tree (update_grid d s) = p_tree s"
  "p_fire (update_grid d s) = p_fire s"
  "step_count (update_grid d s) = step_count s"
  "window_size (update_grid d s) = window_size s"
  "active_fire_history (update_grid d s) = active_fire_history s"
  "cluster_registry (update_grid d s) = cluster_registry s"
  "current_clusters (update_grid d s) = current_clusters s"
  by (simp_all add: update_grid_def)

lemma collect_data_frame [simp]:
  "grid_size (collect_data t) = grid_size t"
  "p_tree (collect_data t) = p_tree t"
  "p_fire (collect_data t) = p_fire t"
  "grid (collect_data t) = grid t"
  "fire_cluster_ids (collect_data t) = fire_cluster_ids t"
  "next_cluster_id (collect_data t) = next_cluster_id t"
  "window_size (collect_data t) = window_size t"
  "step_count (collect_data t) = step_count t + 1"
  by (simp_all add: collect_data_def Let_def)

lemma new_cluster_ids_eq:
  "i < grid_size s \<Longrightarrow> j < grid_size s \<Longrightarrow> ignited_trees d s i j \<Longrightarrow>
   new_cluster_ids d s i j =
     (if has_fire_neighbor s i j then max_neighbor_id s i j
      else next_cluster_id s + int (mask_index (grid_size s) (new_lightning_mask d s) (i, j)))"
proof -
  assume ij: "i < grid_size s" "j < grid_size s" and ig: "ignited_trees d s i j"
  show ?thesis
  proof (cases "has_fire_neighbor s i j")
    case True
    with ij ig show ?thesis
      by (simp add: new_cluster_ids_def Let_def assign_seq_def assign_from_def
          new_lightning_mask_def propagated_mask_def mask_and_def mask_not_def
          fire_neighbors_mask_iff)
  next
    case False
    with ij ig have m: "entry (new_lightning_mask d s) (i, j)"
      by (simp add: entry_def new_lightning_mask_def mask_and_def mask_not_def
          fire_neighbors_mask_iff)
    have c: "(i, j) \<in> set (cells (grid_size s))" using ij by (simp add: in_cells)
    have lt: "mask_index (grid_size s) (new_lightning_mask d s) (i, j) < num_new_fires d s"
      unfolding num_new_fires_def by (rule mask_index_less[OF c m])
    then have "num_new_fires d s > 0" by simp
    with m lt False show ?thesis
      by (simp add: new_cluster_ids_def Let_def assign_seq_def entry_def new_ids_def arange_nth)
  qed
qed

text \<open>The cells ignited by lightning alone receive the minted ids in row-major order.\<close>

lemma lightning_ids_in_order:
  "select (grid_size s) (fire_cluster_ids (step d s)) (new_lightning_mask d s) = new_ids d s"
proof -
  let ?n = "grid_size s" and ?m = "new_lightning_mask d s"
  have "map (entry (fire_cluster_ids (step d s))) (filter (entry ?m) (cells ?n)) =
        map (\<lambda>c. next_cluster_id s + int (mask_index ?n ?m c)) (filter (entry ?m) (cells ?n))"
  proof (rule map_cong[OF refl])
    fix c assume "c \<in> set (filter (entry ?m) (cells ?n))"
    then have c: "c \<in> set (cells ?n)" and m: "entry ?m c" by simp_all
    obtain i j where ij: "c = (i, j)" by (cases c)
    from c have lt: "i < ?n" "j < ?n" by (simp_all add: ij in_cells)
    from m have ig: "ignited_trees d s i j" and nf: "\<not> has_fire_neighbor s i j"
      using lt by (simp_all add: ij entry_def new_lightning_mask_def mask_and_def mask_not_def
          fire_neighbors_mask_iff)
    show "entry (fire_cluster_ids (step d s)) c = next_cluster_id s + int (mask_index ?n ?m c)"
      using new_cluster_ids_eq[OF lt ig] ig nf by (simp add: ij entry_def step_def ids_update_grid)
  qed
  also have "\<dots> = map (\<lambda>k. next_cluster_id s + int k)
      (map (\<lambda>c. mask_index ?n ?m c) (filter (entry ?m) (cells ?n)))"
    by simp
  also have "map (\<lambda>c. mask_index ?n ?m c) (filter (entry ?m) (cells ?n)) =
      [0..<length (filter (entry ?m) (cells ?n))]"
    unfolding mask_index_def by (rule filter_takeWhile_index[OF distinct_cells])
  finally show ?thesis
    by (simp add: select_def new_ids_def arange_def num_new_fires_def np_sum_def)
qed

lemma max_neighbor_id_eq:
  assumes "i < grid_size s" "j < grid_size s"
  shows "max_neighbor_id s i j =
     max (max (max (if Suc i < grid_size s \<and> grid s (Suc i) j = 2 then fire_cluster_ids s (Suc i) j else 0)
                   (if 0 < i \<and> grid s (i - 1) j = 2 then fire_cluster_ids s (i - 1) j else 0))
              (if Suc j < grid_size s \<and> grid s i (Suc j) = 2 then fire_cluster_ids s i (Suc j) else 0))
         (if 0 < j \<and> grid s i (j - 1) = 2 then fire_cluster_ids s i (j - 1) else 0)"
proof -
  have u: "times_mask (roll0 (grid_size s) (- 1) (fire_cluster_ids s)) (up s) i j =
      (if Suc i < grid_size s \<and> grid s (Suc i) j = 2 then fire_cluster_ids s (Suc i) j else 0)"
    using assms by (auto simp: times_mask_def up_iff roll0_def nat_add_distrib mod_pos_pos_trivial)
  have dn: "times_mask (roll0 (grid_size s) 1 (fire_cluster_ids s)) (down s) i j =
      (if 0 < i \<and> grid s (i - 1) j = 2 then fire_cluster_ids s (i - 1) j else 0)"
    using assms by (auto simp: times_mask_def down_iff roll0_def nat_diff_distrib mod_pos_pos_trivial)
  have l: "times_mask (roll1 (grid_size s) (- 1) (fire_cluster_ids s)) (left s) i j =
      (if Suc j < grid_size s \<and> grid s i (Suc j) = 2 then fire_cluster_ids s i (Suc j) else 0)"
    using assms by (auto simp: times_mask_def left_iff roll1_def nat_add_distrib mod_pos_pos_trivial)
  have r: "times_mask (roll1 (grid_size s) 1 (fire_cluster_ids s)) (right s) i j =
      (if 0 < j \<and> grid s i (j - 1) = 2 then fire_cluster_ids s i (j - 1) else 0)"
    using assms by (auto simp: times_mask_def right_iff roll1_def nat_diff_distrib mod_pos_pos_trivial)
  show ?thesis
    unfolding max_neighbor_id_def Let_def maximum4_def u dn l r ..
qed

lemma ids_okD:
  "ids_ok s \<Longrightarrow> a < grid_size s \<Longrightarrow> b < grid_size s \<Longrightarrow>
   0 \<le> fire_cluster_ids s a b \<and> fire_cluster_ids s a b < next_cluster_id s \<and>
   (0 < fire_cluster_ids s a b \<longleftrightarrow> grid s a b = 2 \<or> grid s a b = 3)"
  unfolding ids_ok_def by (drule conjunct2, drule bspec[where x = "(a, b)"]) (simp_all add: in_cells entry_def)

lemma max_neighbor_id_bounds:
  assumes ok: "ids_ok s" and ij: "i < grid_size s" "j < grid_size s"
    and f: "has_fire_neighbor s i j"
  shows "0 < max_neighbor_id s i j \<and> max_neighbor_id s i j < next_cluster_id s"
proof -
  have a: "Suc i < grid_size s \<Longrightarrow> grid s (Suc i) j = 2 \<Longrightarrow>
      0 < fire_cluster_ids s (Suc i) j \<and> fire_cluster_ids s (Suc i) j < next_cluster_id s"
    using ids_okD[OF ok, of "Suc i" j] ij by simp
  have b: "0 < i \<Longrightarrow> grid s (i - 1) j = 2 \<Longrightarrow>
      0 < fire_cluster_ids s (i - 1) j \<and> fire_cluster_ids s (i - 1) j < next_cluster_id s"
    using ids_okD[OF ok, of "i - 1" j] ij by simp
  have c: "Suc j < grid_size s \<Longrightarrow> grid s i (Suc j) = 2 \<Longrightarrow>
      0 < fire_cluster_ids s i (Suc j) \<and> fire_cluster_ids s i (Suc j) < next_cluster_id s"
    using ids_okD[OF ok, of i "Suc j"] ij by simp
  have d: "0 < j \<Longrightarrow> grid s i (j - 1) = 2 \<Longrightarrow>
      0 < fire_cluster_ids s i (j - 1) \<and> fire_cluster_ids s i (j - 1) < next_cluster_id s"
    using ids_okD[OF ok, of i "j - 1"] ij by simp
  have n: "0 < next_cluster_id s" using ok by (simp add: ids_ok_def)
  define u where "u = (if Suc i < grid_size s \<and> grid s (Suc i) j = 2 then fire_cluster_ids s (Suc i) j else 0)"
  define dn where "dn = (if 0 < i \<and> grid s (i - 1) j = 2 then fire_cluster_ids s (i - 1) j else 0)"
  define l where "l = (if Suc j < grid_size s \<and> grid s i (Suc j) = 2 then fire_cluster_ids s i (Suc j) else 0)"
  define r where "r = (if 0 < j \<and> grid s i (j - 1) = 2 then fire_cluster_ids s i (j - 1) else 0)"
  have m: "max_neighbor_id s i j = max (max (max u dn) l) r"
    unfolding max_neighbor_id_eq[OF ij] u_def dn_def l_def r_def ..
  have ub: "u < next_cluster_id s" "dn < next_cluster_id s" "l < next_cluster_id s"
    "r < next_cluster_id s"
    using a b c d n by (simp_all add: u_def dn_def l_def r_def)
  have pos: "0 < u \<or> 0 < dn \<or> 0 < l \<or> 0 < r"
    using f a b c d unfolding has_fire_neighbor_def u_def dn_def l_def r_def by auto
  show ?thesis
    unfolding m using ub pos by (simp add: less_max_iff_disj)
qed

lemma new_cluster_ids_bounds:
  assumes ok: "ids_ok s" and ij: "i < grid_size s" "j < grid_size s"
    and ig: "ignited_trees d s i j"
  shows "0 < new_cluster_ids d s i j \<and>
         new_cluster_ids d s i j < next_cluster_id s + int (num_new_fires d s)"
proof (cases "has_fire_neighbor s i j")
  case True
  then show ?thesis
    using max_neighbor_id_bounds[OF ok ij True] new_cluster_ids_eq[OF ij ig] by simp
next
  case False
  with ij ig have m: "entry (new_lightning_mask d s) (i, j)"
    by (simp add: entry_def new_lightning_mask_def mask_and_def mask_not_def
        fire_neighbors_mask_iff)
  have c: "(i, j) \<in> set (cells (grid_size s))" using ij by (simp add: in_cells)
  have lt: "mask_index (grid_size s) (new_lightning_mask d s) (i, j) < num_new_fires d s"
    unfolding num_new_fires_def by (rule mask_index_less[OF c m])
  have n: "1 \<le> next_cluster_id s" using ok by (simp add: ids_ok_def)
  show ?thesis
    using new_cluster_ids_eq[OF ij ig] False lt n by simp
qed

lemma ids_ok_update_grid:
  assumes ok: "ids_ok s"
  shows "ids_ok (update_grid d s)"
  unfolding ids_ok_def
proof (intro conjI ballI)
  show "1 \<le> next_cluster_id (update_grid d s)"
    using ok by (simp add: next_update_grid ids_ok_def)
next
  fix c assume cm: "c \<in> set (cells (grid_size (update_grid d s)))"
  obtain i j where c: "c = (i, j)" by (cases c)
  have ij: "i < grid_size s" "j < grid_size s"
    using cm by (simp_all add: c in_cells)
  note old = ids_okD[OF ok ij]
  show "0 \<le> entry (fire_cluster_ids (update_grid d s)) c"
    using old new_cluster_ids_bounds[OF ok ij, of d]
    by (auto simp: c entry_def ids_update_grid)
  show "entry (fire_cluster_ids (update_grid d s)) c < next_cluster_id (update_grid d s)"
    using old new_cluster_ids_bounds[OF ok ij, of d] ok
    by (auto simp: c entry_def ids_update_grid next_update_grid ids_ok_def)
  show "0 < entry (fire_cluster_ids (update_grid d s)) c \<longleftrightarrow>
        entry (grid (update_grid d s)) c = 2 \<or> entry (grid (update_grid d s)) c = 3"
    using old new_cluster_ids_bounds[OF ok ij, of d]
    by (auto simp: c entry_def ids_update_grid grid_update_grid active_ash_mask_iff)
qed

lemma ids_ok_collect_data: "ids_ok (collect_data t) = ids_ok t"
  by (simp add: ids_ok_def)

lemma ids_ok_step: "ids_ok s \<Longrightarrow> ids_ok (step d s)"
  by (simp add: step_def ids_ok_collect_data ids_ok_update_grid)

lemma ids_ok_init: "init mem gs pt pf rnd = Inr s \<Longrightarrow> ids_ok s"
  by (auto simp: init_def Let_def ids_ok_def entry_def assign_def zeros_def
      split: option.splits if_splits)

lemma reachable_ids_ok: "reachable s \<Longrightarrow> ids_ok s"
  by (induction rule: reachable.induct) (auto intro: ids_ok_init ids_ok_step)

lemma burning_count_0_iff:
  "burning_count s k = 0 \<longleftrightarrow>
     (\<forall>c \<in> set (cells (grid_size s)). \<not> (entry (grid s) c = 2 \<and> entry (fire_cluster_ids s) c = k))"
  by (simp add: burning_count_def filter_empty_conv)

lemma step_grid [simp]: "grid (step d s) = grid (update_grid d s)"
  and step_ids [simp]: "fire_cluster_ids (step d s) = fire_cluster_ids (update_grid d s)"
  and step_grid_size [simp]: "grid_size (step d s) = grid_size s"
  and step_next: "next_cluster_id (step d s) = next_cluster_id s + int (num_new_fires d s)"
  and step_step_count [simp]: "step_count (step d s) = step_count s + 1"
  and step_window_size [simp]: "window_size (step d s) = window_size s"
  and step_p_fire [simp]: "p_fire (step d s) = p_fire s"
  and step_p_tree [simp]: "p_tree (step d s) = p_tree s"
  by (simp_all add: step_def next_update_grid)

lemma ash_after_step:
  "grid (step d s) i j = 3 \<longleftrightarrow> active_ash_mask d s i j"
  by (auto simp: grid_update_grid dest: active_ash_not_ignited)

lemma active_ash_has_fire:
  assumes "active_ash_mask d s i j"
  shows "burning_count (step d s) (fire_cluster_ids s i j) \<noteq> 0"
proof -
  from assms obtain c where c: "c \<in> set (cells (grid_size s))"
    and ig: "entry (ignited_trees d s) c"
    and id: "entry (new_cluster_ids d s) c = fire_cluster_ids s i j"
    by (auto simp: active_ash_mask_iff)
  obtain a b where ab: "c = (a, b)" by (cases c)
  have "entry (grid (step d s)) c = 2 \<and>
        entry (fire_cluster_ids (step d s)) c = fire_cluster_ids s i j"
    using ig id by (simp add: ab entry_def grid_update_grid ids_update_grid)
  with c show ?thesis by (auto simp: burning_count_0_iff)
qed

section \<open>Reading the registry update key by key\<close>

lemma track_cluster_eq:
  "track_cluster t stp k acc =
     (fst acc @ [(k, cluster_size t k)], (snd acc)(k \<mapsto> tracked_info t stp k (snd acc k)))"
  by (cases "snd acc k")
     (auto simp: track_cluster_def tracked_info_def Let_def max_def deque_append_def new_deque_def)

lemma fold_track_fst:
  "fst (fold (track_cluster t stp) ks acc) = fst acc @ map (\<lambda>k. (k, cluster_size t k)) ks"
  by (induction ks arbitrary: acc) (simp_all add: track_cluster_eq)

lemma fold_track_snd:
  "distinct ks \<Longrightarrow>
   snd (fold (track_cluster t stp) ks acc) k =
     (if k \<in> set ks then Some (tracked_info t stp k (snd acc k)) else snd acc k)"
  by (induction ks arbitrary: acc) (auto simp: track_cluster_eq)

lemma mark_death_eq:
  "mark_death stp a reg = reg(a := map_option (marked_info stp) (reg a))"
  by (cases "reg a") (auto simp: mark_death_def marked_info_def)

lemma marked_info_idem: "marked_info stp (marked_info stp e) = marked_info stp e"
  by (simp add: marked_info_def)

lemma fold_mark_death:
  "fold (mark_death stp) ks reg k =
     (if k \<in> set ks then map_option (marked_info stp) (reg k) else reg k)"
  by (induction ks arbitrary: reg)
     (auto simp: mark_death_eq option.map_comp comp_def marked_info_idem)

lemma distinct_active_cluster_ids: "distinct (active_cluster_ids t)"
  by (simp add: active_cluster_ids_def distinct_removeAll)

lemma set_active_cluster_ids:
  "k \<in> set (active_cluster_ids t) \<longleftrightarrow> k \<noteq> 0 \<and> burning_count t k \<noteq> 0"
  by (auto simp: active_cluster_ids_def select_def burning_def burning_count_0_iff entry_def)

lemma set_died_cluster_ids:
  "k \<in> set (died_cluster_ids t) \<longleftrightarrow>
     k \<in> fst ` set (current_clusters t) \<and> k \<notin> set (active_cluster_ids t)"
  by (auto simp: died_cluster_ids_def)

lemma registry_collect_data:
  "cluster_registry (collect_data t) k =
     pruned_info (step_count t + 1) (window_size t)
       (if k \<in> set (active_cluster_ids t)
        then Some (tracked_info t (step_count t + 1) k (cluster_registry t k))
        else if k \<in> fst ` set (current_clusters t)
          then map_option (marked_info (step_count t + 1)) (cluster_registry t k)
          else cluster_registry t k)"
  by (simp add: collect_data_def Let_def prune_def pruned_info_def fold_mark_death
      fold_track_snd[OF distinct_active_cluster_ids] set_died_cluster_ids)

lemma current_clusters_collect_data:
  "current_clusters (collect_data t) = map (\<lambda>k. (k, cluster_size t k)) (active_cluster_ids t)"
  by (simp add: collect_data_def Let_def fold_track_fst)

lemma history_collect_data:
  "active_fire_history (collect_data t) =
     deque_append (active_fire_history t) (step_count t + 1, np_sum (grid_size t) (burning t))"
  by (simp add: collect_data_def Let_def)

section \<open>Ids that leave the grid\<close>

lemma max_neighbor_id_source:
  assumes ij: "i < grid_size s" "j < grid_size s"
  shows "max_neighbor_id s i j = 0 \<or> carried s (max_neighbor_id s i j)"
proof -
  define u where "u = (if Suc i < grid_size s \<and> grid s (Suc i) j = 2 then fire_cluster_ids s (Suc i) j else 0)"
  define dn where "dn = (if 0 < i \<and> grid s (i - 1) j = 2 then fire_cluster_ids s (i - 1) j else 0)"
  define l where "l = (if Suc j < grid_size s \<and> grid s i (Suc j) = 2 then fire_cluster_ids s i (Suc j) else 0)"
  define r where "r = (if 0 < j \<and> grid s i (j - 1) = 2 then fire_cluster_ids s i (j - 1) else 0)"
  have m: "max_neighbor_id s i j = max (max (max u dn) l) r"
    unfolding max_neighbor_id_eq[OF ij] u_def dn_def l_def r_def ..
  have c: "\<And>a b. a < grid_size s \<Longrightarrow> b < grid_size s \<Longrightarrow> carried s (fire_cluster_ids s a b)"
    unfolding carried_def by (rule_tac x = "(a, b)" in bexI) (simp_all add: entry_def in_cells)
  have cu: "u = 0 \<or> carried s u" using ij c[of "Suc i" j] by (auto simp: u_def)
  have cd: "dn = 0 \<or> carried s dn" using ij c[of "i - 1" j] by (auto simp: dn_def)
  have cl: "l = 0 \<or> carried s l" using ij c[of i "Suc j"] by (auto simp: l_def)
  have cr: "r = 0 \<or> carried s r" using ij c[of i "j - 1"] by (auto simp: r_def)
  have "max (max (max u dn) l) r \<in> {u, dn, l, r}" by (auto simp: max_def)
  with cu cd cl cr show ?thesis unfolding m by auto
qed

text \<open>An id that no cell carries and that the counter has passed is never carried again.\<close>

lemma not_carried_step:
  assumes k: "k \<noteq> 0" and nc: "\<not> carried s k"
    and lt: "k < next_cluster_id s \<or> num_new_fires d s = 0"
  shows "\<not> carried (step d s) k"
proof
  assume "carried (step d s) k"
  then obtain i j where ij: "i < grid_size s" "j < grid_size s"
    and id: "fire_cluster_ids (step d s) i j = k"
    by (auto simp: carried_def in_cells entry_def)
  have old: "fire_cluster_ids s i j \<noteq> k"
    using nc ij unfolding carried_def by (auto simp: entry_def in_cells dest!: bspec[where x = "(i, j)"])
  show False
  proof (cases "ignited_trees d s i j")
    case True
    note eq = new_cluster_ids_eq[OF ij True]
    show False
    proof (cases "has_fire_neighbor s i j")
      case True
      with eq id \<open>ignited_trees d s i j\<close> have "max_neighbor_id s i j = k"
        by (simp add: ids_update_grid)
      with max_neighbor_id_source[OF ij] k nc show False by auto
    next
      case False
      with ij True have m: "entry (new_lightning_mask d s) (i, j)"
        by (simp add: entry_def new_lightning_mask_def mask_and_def mask_not_def
            fire_neighbors_mask_iff)
      have c: "(i, j) \<in> set (cells (grid_size s))" using ij by (simp add: in_cells)
      have pos: "mask_index (grid_size s) (new_lightning_mask d s) (i, j) < num_new_fires d s"
        unfolding num_new_fires_def by (rule mask_index_less[OF c m])
      from False eq id True have "k \<ge> next_cluster_id s"
        by (simp add: ids_update_grid)
      with lt pos show False by auto
    qed
  next
    case False
    with id old k show False by (auto simp: ids_update_grid split: if_splits)
  qed
qed

text \<open>After a step, the ids on the grid are the ids of the burning cells.\<close>

lemma carried_after_step:
  assumes k: "k \<noteq> 0" and c: "carried (step d s) k"
  shows "burning_count (step d s) k \<noteq> 0"
proof -
  from c obtain i j where ij: "i < grid_size s" "j < grid_size s"
    and id: "fire_cluster_ids (step d s) i j = k"
    by (auto simp: carried_def in_cells entry_def)
  show ?thesis
  proof (cases "ignited_trees d s i j")
    case True
    then have "entry (grid (step d s)) (i, j) = 2 \<and> entry (fire_cluster_ids (step d s)) (i, j) = k"
      using id by (simp add: entry_def grid_update_grid)
    moreover have "(i, j) \<in> set (cells (grid_size (step d s)))" using ij by (simp add: in_cells)
    ultimately show ?thesis unfolding burning_count_0_iff by blast
  next
    case False
    with id k have a: "active_ash_mask d s i j" and "fire_cluster_ids s i j = k"
      by (auto simp: ids_update_grid split: if_splits)
    with active_ash_has_fire[OF a] show ?thesis by simp
  qed
qed

lemma active_cluster_ids_step:
  "active_cluster_ids (step d s) = active_cluster_ids (update_grid d s)"
  by (simp add: active_cluster_ids_def burning_def)

lemma tracked_info_step:
  "tracked_info (step d s) stp k old = tracked_info (update_grid d s) stp k old"
  by (cases old) (simp_all add: tracked_info_def cluster_size_def Let_def)

lemma registry_step:
  "cluster_registry (step d s) k =
     pruned_info (step_count s + 1) (window_size s)
       (if k \<in> set (active_cluster_ids (step d s))
        then Some (tracked_info (step d s) (step_count s + 1) k (cluster_registry s k))
        else if k \<in> fst ` set (current_clusters s)
          then map_option (marked_info (step_count s + 1)) (cluster_registry s k)
          else cluster_registry s k)"
  unfolding active_cluster_ids_step tracked_info_step
  by (simp add: step_def registry_collect_data)

lemma current_clusters_step:
  "current_clusters (step d s) =
     map (\<lambda>k. (k, cluster_size (step d s) k)) (active_cluster_ids (step d s))"
  unfolding active_cluster_ids_step
  by (simp add: step_def current_clusters_collect_data cluster_size_def)

lemma history_step:
  "active_fire_history (step d s) =
     deque_append (active_fire_history s)
       (step_count s + 1, np_sum (grid_size s) (burning (step d s)))"
  by (simp add: step_def history_collect_data burning_def)

lemma tracked_info_fields [simp]:
  "birth (tracked_info t stp k old) = (case old of None \<Rightarrow> stp | Some e \<Rightarrow> birth e)"
  "death (tracked_info t stp k old) = (case old of None \<Rightarrow> None | Some e \<Rightarrow> death e)"
  "max_size (tracked_info t stp k old) =
     (case old of None \<Rightarrow> cluster_size t k | Some e \<Rightarrow> max (max_size e) (cluster_size t k))"
  "sizes (tracked_info t stp k old) =
     deque_append (case old of None \<Rightarrow> new_deque (window_size t) | Some e \<Rightarrow> sizes e)
       (stp, cluster_size t k)"
  by (simp_all add: tracked_info_def Let_def split: option.splits)

lemma marked_info_fields [simp]:
  "birth (marked_info stp e) = birth e"
  "death (marked_info stp e) = (case death e of None \<Rightarrow> Some stp | Some t \<Rightarrow> Some t)"
  "max_size (marked_info stp e) = max_size e"
  "sizes (marked_info stp e) = sizes e"
  by (simp_all add: marked_info_def split: option.splits)

lemma pruned_info_Some:
  "pruned_info stp w e = Some info \<longleftrightarrow>
     e = Some info \<and> (case death info of None \<Rightarrow> True | Some t \<Rightarrow> stp - t \<le> int w)"
  by (auto simp: pruned_info_def split: option.splits)

lemma pruned_info_None:
  "pruned_info stp w e = None \<longleftrightarrow>
     (case e of None \<Rightarrow> True
      | Some info \<Rightarrow> (case death info of None \<Rightarrow> False | Some t \<Rightarrow> stp - t > int w))"
  by (auto simp: pruned_info_def split: option.splits)

section \<open>Invariants of the reachable states\<close>

lemma next_le_step: "next_cluster_id s \<le> next_cluster_id (step d s)"
  by (simp add: step_next)

lemma active_carried:
  "k \<in> set (active_cluster_ids s) \<Longrightarrow> carried s k"
  by (auto simp: set_active_cluster_ids burning_count_0_iff carried_def)

lemma carriedD:
  "carried s k \<Longrightarrow> \<exists>i j. i < grid_size s \<and> j < grid_size s \<and> fire_cluster_ids s i j = k"
  by (fastforce simp: carried_def in_cells entry_def)

lemma registry_ok_step:
  assumes ok: "ids_ok s" and r: "registry_ok s"
  shows "registry_ok (step d s)"
  unfolding registry_ok_def
proof (intro allI impI)
  fix k e' assume e': "cluster_registry (step d s) k = Some e'"
  have ok': "ids_ok (step d s)" by (rule ids_ok_step[OF ok])
  have old: "\<And>e. cluster_registry s k = Some e \<Longrightarrow>
      0 < k \<and> k < next_cluster_id s \<and> (death e \<noteq> None \<longrightarrow> \<not> carried s k)"
    using r unfolding registry_ok_def by blast
  have keep: "\<And>e. cluster_registry s k = Some e \<Longrightarrow> death e \<noteq> None \<Longrightarrow> \<not> carried (step d s) k"
    using old not_carried_step[of k s d] by auto
  show "0 < k \<and> k < next_cluster_id (step d s) \<and> (death e' \<noteq> None \<longrightarrow> \<not> carried (step d s) k)"
  proof (cases "k \<in> set (active_cluster_ids (step d s))")
    case True
    then have c: "carried (step d s) k" by (rule active_carried)
    from carriedD[OF c] obtain i j where ij: "i < grid_size (step d s)" "j < grid_size (step d s)"
      and id: "fire_cluster_ids (step d s) i j = k" by blast
    from True have k0: "k \<noteq> 0" by (simp add: set_active_cluster_ids)
    have b: "0 < k \<and> k < next_cluster_id (step d s)"
      using ids_okD[OF ok' ij] id k0 by auto
    from e' True have eq: "e' = tracked_info (step d s) (step_count s + 1) k (cluster_registry s k)"
      by (simp add: registry_step pruned_info_Some)
    have "death e' = None"
    proof (cases "cluster_registry s k")
      case None
      then show ?thesis using eq by simp
    next
      case (Some a)
      with keep[OF Some] c have "death a = None" by blast
      with Some eq show ?thesis by simp
    qed
    with b show ?thesis by simp
  next
    case False
    then have nc: "k \<noteq> 0 \<Longrightarrow> \<not> carried (step d s) k"
      using carried_after_step[of k d s] by (auto simp: set_active_cluster_ids)
    from e' False obtain e where e: "cluster_registry s k = Some e"
      by (cases "cluster_registry s k") (auto simp: registry_step pruned_info_Some split: if_splits)
    from old[OF e] next_le_step[of s d] nc show ?thesis by auto
  qed
qed

lemma registry_ok_init: "init mem gs pt pf rnd = Inr s \<Longrightarrow> registry_ok s"
  by (auto simp: init_def Let_def registry_ok_def split: option.splits)

lemma reachable_registry_ok: "reachable s \<Longrightarrow> registry_ok s"
  by (induction rule: reachable.induct)
     (auto intro: registry_ok_init registry_ok_step reachable_ids_ok)

lemma deque_append_maxlen [simp]: "maxlen (deque_append q x) = maxlen q"
  by (simp add: deque_append_def)

lemma deque_append_length:
  "length (items q) \<le> maxlen q \<Longrightarrow> length (items (deque_append q x)) \<le> maxlen q"
  by (auto simp: deque_append_def)

lemma deque_append_items:
  "0 < maxlen q \<Longrightarrow> length (items q) \<le> maxlen q \<Longrightarrow>
   items (deque_append q x) = fifo_push (maxlen q) (items q) x"
  by (auto simp: deque_append_def fifo_push_def)

lemma history_ok_step:
  assumes h: "history_ok s"
  shows "history_ok (step d s)"
  unfolding history_ok_def
proof (intro conjI allI impI)
  show "window_size (step d s) = 6000" using h by (simp add: history_ok_def)
  show "maxlen (active_fire_history (step d s)) = window_size (step d s)"
    using h by (simp add: history_ok_def history_step)
  show "length (items (active_fire_history (step d s))) \<le> window_size (step d s)"
    using h deque_append_length[of "active_fire_history s"]
    by (simp add: history_ok_def history_step)
next
  fix k e' assume e': "cluster_registry (step d s) k = Some e'"
  have old: "\<And>e. cluster_registry s k = Some e \<Longrightarrow>
      maxlen (sizes e) = window_size s \<and> length (items (sizes e)) \<le> window_size s"
    using h unfolding history_ok_def by blast
  have "maxlen (sizes e') = window_size s \<and> length (items (sizes e')) \<le> window_size s"
  proof (cases "k \<in> set (active_cluster_ids (step d s))")
    case True
    with e' have eq: "e' = tracked_info (step d s) (step_count s + 1) k (cluster_registry s k)"
      by (simp add: registry_step pruned_info_Some)
    show ?thesis
    proof (cases "cluster_registry s k")
      case None
      then show ?thesis
        using deque_append_length[of "new_deque (window_size s)"]
        by (simp add: eq new_deque_def)
    next
      case (Some e)
      then show ?thesis
        using old[OF Some] deque_append_length[of "sizes e"] by (simp add: eq)
    qed
  next
    case False
    with e' obtain e where e: "cluster_registry s k = Some e"
      and eq: "sizes e' = sizes e"
      by (cases "cluster_registry s k") (auto simp: registry_step pruned_info_Some split: if_splits)
    with old[OF e] show ?thesis by simp
  qed
  then show "maxlen (sizes e') = window_size (step d s)"
    and "length (items (sizes e')) \<le> window_size (step d s)" by simp_all
qed

lemma history_ok_init: "init mem gs pt pf rnd = Inr s \<Longrightarrow> history_ok s"
  by (auto simp: init_def Let_def history_ok_def new_deque_def split: option.splits)

lemma reachable_history_ok: "reachable s \<Longrightarrow> history_ok s"
  by (induction rule: reachable.induct) (auto intro: history_ok_init history_ok_step)

lemma new_ids_bounds:
  "x \<in> set (new_ids d s) \<Longrightarrow> next_cluster_id s \<le> x \<and> x < next_cluster_id (step d s)"
  by (auto simp: new_ids_def arange_def step_next)

lemma sorted_new_ids: "sorted_wrt (<) (new_ids d s)"
  by (simp add: new_ids_def arange_def sorted_wrt_map)

lemma minted_lower: "x \<in> set (minted s ds) \<Longrightarrow> next_cluster_id s \<le> x"
proof (induction ds arbitrary: s)
  case Nil
  then show ?case by simp
next
  case (Cons d ds)
  then show ?case
    using new_ids_bounds[of x d s] next_le_step[of s d] by fastforce
qed

lemma sorted_minted: "sorted_wrt (<) (minted s ds)"
proof (induction ds arbitrary: s)
  case Nil
  then show ?case by simp
next
  case (Cons d ds)
  have "\<And>x y. x \<in> set (new_ids d s) \<Longrightarrow> y \<in> set (minted (step d s) ds) \<Longrightarrow> x < y"
    using new_ids_bounds minted_lower by fastforce
  with Cons sorted_new_ids show ?case by (auto simp: sorted_wrt_append)
qed

section \<open>Inherited ids, and entries over a run\<close>

lemma burning_neighbours_empty:
  "burning_neighbours s (i, j) \<noteq> [] \<longleftrightarrow> has_fire_neighbor s i j"
  by (auto simp: burning_neighbours_def neighbours_def has_fire_neighbor_def entry_def)

lemma Max_candidates:
  fixes u dn l r :: int
  assumes "A \<Longrightarrow> 0 < u" "B \<Longrightarrow> 0 < dn" "C \<Longrightarrow> 0 < l" "D \<Longrightarrow> 0 < r"
    and "A \<or> B \<or> C \<or> D"
  shows "Max (set ((if A then [u] else []) @ (if B then [dn] else []) @
                   (if C then [l] else []) @ (if D then [r] else []))) =
         max (max (max (if A then u else 0) (if B then dn else 0)) (if C then l else 0))
             (if D then r else 0)"
  using assms by (cases A; cases B; cases C; cases D; simp add: max_def)

lemma max_neighbor_id_Max:
  assumes ok: "ids_ok s" and ij: "i < grid_size s" "j < grid_size s"
    and f: "has_fire_neighbor s i j"
  shows "max_neighbor_id s i j =
         Max (set (map (entry (fire_cluster_ids s)) (burning_neighbours s (i, j))))"
proof -
  let ?A = "Suc i < grid_size s \<and> grid s (Suc i) j = 2"
  let ?B = "0 < i \<and> grid s (i - 1) j = 2"
  let ?C = "Suc j < grid_size s \<and> grid s i (Suc j) = 2"
  let ?D = "0 < j \<and> grid s i (j - 1) = 2"
  have a: "?A \<Longrightarrow> 0 < fire_cluster_ids s (Suc i) j"
    using ids_okD[OF ok, of "Suc i" j] ij by simp
  have b: "?B \<Longrightarrow> 0 < fire_cluster_ids s (i - 1) j"
    using ids_okD[OF ok, of "i - 1" j] ij by simp
  have c: "?C \<Longrightarrow> 0 < fire_cluster_ids s i (Suc j)"
    using ids_okD[OF ok, of i "Suc j"] ij by simp
  have d: "?D \<Longrightarrow> 0 < fire_cluster_ids s i (j - 1)"
    using ids_okD[OF ok, of i "j - 1"] ij by simp
  have any: "?A \<or> ?B \<or> ?C \<or> ?D" using f by (simp add: has_fire_neighbor_def)
  have l: "map (entry (fire_cluster_ids s)) (burning_neighbours s (i, j)) =
      (if ?A then [fire_cluster_ids s (Suc i) j] else []) @
      (if ?B then [fire_cluster_ids s (i - 1) j] else []) @
      (if ?C then [fire_cluster_ids s i (Suc j)] else []) @
      (if ?D then [fire_cluster_ids s i (j - 1)] else [])"
    by (simp add: burning_neighbours_def neighbours_def entry_def)
  show ?thesis
    unfolding l max_neighbor_id_eq[OF ij]
    by (rule Max_candidates[OF a b c d any, symmetric])
qed

lemma lightning_id_unique:
  assumes ok: "ids_ok s" and ij: "i < grid_size s" "j < grid_size s"
    and ig: "ignited_trees d s i j" and nf: "\<not> has_fire_neighbor s i j"
    and ab: "a < grid_size s" "b < grid_size s"
    and eq: "fire_cluster_ids (step d s) a b = fire_cluster_ids (step d s) i j"
  shows "a = i \<and> b = j"
proof -
  let ?m = "new_lightning_mask d s"
  have m: "entry ?m (i, j)"
    using ij ig nf by (simp add: entry_def new_lightning_mask_def mask_and_def mask_not_def
        fire_neighbors_mask_iff)
  have x: "fire_cluster_ids (step d s) i j = next_cluster_id s + int (mask_index (grid_size s) ?m (i, j))"
    using new_cluster_ids_eq[OF ij ig] ig nf by (simp add: ids_update_grid)
  have old: "fire_cluster_ids s a b < next_cluster_id s" "0 < next_cluster_id s"
    using ids_okD[OF ok ab] ok by (simp_all add: ids_ok_def)
  show ?thesis
  proof (cases "ignited_trees d s a b")
    case True
    show ?thesis
    proof (cases "has_fire_neighbor s a b")
      case f: True
      have "fire_cluster_ids (step d s) a b = max_neighbor_id s a b"
        using new_cluster_ids_eq[OF ab True] True f by (simp add: ids_update_grid)
      with max_neighbor_id_bounds[OF ok ab f] x eq show ?thesis by simp
    next
      case f: False
      have m': "entry ?m (a, b)"
        using ab True f by (simp add: entry_def new_lightning_mask_def mask_and_def mask_not_def
            fire_neighbors_mask_iff)
      have "fire_cluster_ids (step d s) a b =
          next_cluster_id s + int (mask_index (grid_size s) ?m (a, b))"
        using new_cluster_ids_eq[OF ab True] True f by (simp add: ids_update_grid)
      with x eq have "mask_index (grid_size s) ?m (a, b) = mask_index (grid_size s) ?m (i, j)"
        by simp
      from mask_index_inj[OF _ _ m' m this] ab ij show ?thesis by (simp add: in_cells)
    qed
  next
    case False
    then have "fire_cluster_ids (step d s) a b < next_cluster_id s"
      using old by (simp add: ids_update_grid)
    with x eq show ?thesis by simp
  qed
qed

lemma entry_step_same:
  assumes e: "cluster_registry s k = Some e" and e': "cluster_registry (step d s) k = Some e'"
  shows "birth e' = birth e \<and> (death e = None \<or> death e' = death e)"
  using e e' by (auto simp: registry_step pruned_info_Some split: if_splits option.splits)

lemma gone_step:
  assumes "cluster_registry s k = None" "k \<noteq> 0" "\<not> carried s k"
    and lt: "k < next_cluster_id s \<or> num_new_fires d s = 0"
  shows "cluster_registry (step d s) k = None \<and> \<not> carried (step d s) k"
proof -
  have nc: "\<not> carried (step d s) k" by (rule not_carried_step[OF assms(2,3) lt])
  then have "k \<notin> set (active_cluster_ids (step d s))" using active_carried by blast
  then show ?thesis using nc assms(1) by (simp add: registry_step pruned_info_def)
qed

lemma gone_run:
  assumes "cluster_registry s k = None" "k \<noteq> 0" "\<not> carried s k" "k < next_cluster_id s"
  shows "cluster_registry (run s ds) k = None"
  using assms
proof (induction ds arbitrary: s)
  case Nil
  then show ?case by simp
next
  case (Cons d ds)
  have "cluster_registry (step d s) k = None \<and> \<not> carried (step d s) k"
    using Cons.prems by (intro gone_step) auto
  moreover have "k < next_cluster_id (step d s)"
    using Cons.prems(4) next_le_step[of s d] by simp
  ultimately show ?case using Cons.IH[of "step d s"] Cons.prems(2) by simp
qed

lemma entry_lost:
  assumes ok: "registry_ok s"
    and e: "cluster_registry s k = Some e" and n: "cluster_registry (step d s) k = None"
  shows "k \<noteq> 0 \<and> \<not> carried (step d s) k \<and> k < next_cluster_id (step d s)"
proof -
  from ok e have k: "0 < k" "k < next_cluster_id s"
    and dead: "death e \<noteq> None \<Longrightarrow> \<not> carried s k"
    unfolding registry_ok_def by blast+
  have na: "k \<notin> set (active_cluster_ids (step d s))"
  proof
    assume a: "k \<in> set (active_cluster_ids (step d s))"
    with n e have "death e \<noteq> None"
      by (auto simp: registry_step pruned_info_None split: option.splits)
    from dead[OF this] have "\<not> carried (step d s) k"
      using not_carried_step[of k s d] k by auto
    with active_carried[OF a] show False by simp
  qed
  then have "\<not> carried (step d s) k"
    using carried_after_step[of k d s] k by (auto simp: set_active_cluster_ids)
  with k next_le_step[of s d] show ?thesis by auto
qed

lemma reachable_run: "reachable s \<Longrightarrow> reachable (run s ds)"
  by (induction ds arbitrary: s) (auto intro: reachable_step)

lemma active_entry_alive:
  assumes ok: "registry_ok s" and e: "cluster_registry s k = Some e"
    and a: "k \<in> set (active_cluster_ids (step d s))"
  shows "death e = None"
proof (rule ccontr)
  assume "death e \<noteq> None"
  with ok e have "\<not> carried s k" "k < next_cluster_id s" "k \<noteq> 0"
    unfolding registry_ok_def by blast+
  then have "\<not> carried (step d s) k" by (intro not_carried_step) auto
  with active_carried[OF a] show False by simp
qed

lemma active_entry_step:
  assumes ok: "registry_ok s" and a: "k \<in> set (active_cluster_ids (step d s))"
  shows "cluster_registry (step d s) k =
           Some (tracked_info (step d s) (step_count s + 1) k (cluster_registry s k))"
proof (cases "cluster_registry s k")
  case None
  with a show ?thesis by (simp add: registry_step pruned_info_def)
next
  case (Some e)
  with active_entry_alive[OF ok Some a] a show ?thesis
    by (simp add: registry_step pruned_info_def)
qed

lemma length_filter_split:
  "length (filter (\<lambda>c. P c \<or> Q c) xs) = length (filter P xs) + length (filter Q xs)"
  if "\<And>c. c \<in> set xs \<Longrightarrow> \<not> (P c \<and> Q c)"
  using that by (induction xs) auto

lemma cluster_size_split:
  assumes ok: "ids_ok s" and k: "0 < k"
  shows "cluster_size s k = burning_count s k + ash_count s k"
proof -
  have "filter (entry (\<lambda>i j. fire_cluster_ids s i j = k)) (cells (grid_size s)) =
        filter (\<lambda>c. (entry (grid s) c = 2 \<and> entry (fire_cluster_ids s) c = k) \<or>
                     (entry (grid s) c = 3 \<and> entry (fire_cluster_ids s) c = k))
          (cells (grid_size s))"
  proof (rule filter_cong[OF refl])
    fix c assume c: "c \<in> set (cells (grid_size s))"
    then have "0 < entry (fire_cluster_ids s) c \<longleftrightarrow> entry (grid s) c = 2 \<or> entry (grid s) c = 3"
      using ok unfolding ids_ok_def by blast
    with k show "entry (\<lambda>i j. fire_cluster_ids s i j = k) c \<longleftrightarrow>
        (entry (grid s) c = 2 \<and> entry (fire_cluster_ids s) c = k) \<or>
        (entry (grid s) c = 3 \<and> entry (fire_cluster_ids s) c = k)"
      by (auto simp: entry_def)
  qed
  then show ?thesis
    unfolding cluster_size_def np_sum_def burning_count_def ash_count_def
    by (simp add: length_filter_split)
qed

lemma active_pos:
  assumes ok: "ids_ok s" and a: "k \<in> set (active_cluster_ids s)"
  shows "0 < k"
proof -
  from carriedD[OF active_carried[OF a]] obtain i j where
    "i < grid_size s" "j < grid_size s" "fire_cluster_ids s i j = k" by blast
  with ids_okD[OF ok, of i j] a show ?thesis by (auto simp: set_active_cluster_ids)
qed

section \<open>The maximum over a lifetime\<close>

lemma run_snoc: "run s (ds @ [d]) = step d (run s ds)"
  by (induction ds arbitrary: s) simp_all

lemma step_count_run: "step_count (run s ds) = step_count s + int (length ds)"
  by (induction ds arbitrary: s) simp_all

lemma lifetime_sizes_snoc:
  assumes "b \<le> int (length ds) + 1"
  shows "lifetime_sizes s0 (ds @ [d]) k b =
         lifetime_sizes s0 ds k b @
         (if k \<in> set (active_cluster_ids (step d (run s0 ds)))
          then [cluster_size (step d (run s0 ds)) k] else [])"
proof -
  have le: "nat b \<le> Suc (length ds)" using assms by simp
  have u: "[nat b..<Suc (length (ds @ [d]))] = [nat b..<Suc (length ds)] @ [Suc (length ds)]"
    using le by simp
  have old: "\<And>m. m \<in> set [nat b..<Suc (length ds)] \<Longrightarrow> run s0 (take m (ds @ [d])) = run s0 (take m ds)"
    by auto
  have f: "filter (\<lambda>m. k \<in> set (active_cluster_ids (run s0 (take m (ds @ [d])))))
             [nat b..<Suc (length ds)] =
           filter (\<lambda>m. k \<in> set (active_cluster_ids (run s0 (take m ds))))
             [nat b..<Suc (length ds)]"
    by (rule filter_cong[OF refl]) (simp only: old)
  have g: "map (\<lambda>m. cluster_size (run s0 (take m (ds @ [d]))) k)
             (filter (\<lambda>m. k \<in> set (active_cluster_ids (run s0 (take m ds))))
                [nat b..<Suc (length ds)]) =
           map (\<lambda>m. cluster_size (run s0 (take m ds)) k)
             (filter (\<lambda>m. k \<in> set (active_cluster_ids (run s0 (take m ds))))
                [nat b..<Suc (length ds)])"
    by (rule map_cong[OF refl]) (simp only: old set_filter mem_Collect_eq)
  show ?thesis
    unfolding lifetime_sizes_def u filter_append map_append f g
    by (simp add: run_snoc)
qed

lemma lifetime_ok_snoc:
  assumes r: "reachable s0" and c: "step_count s0 = 0" and ok: "lifetime_ok s0 ds"
  shows "lifetime_ok s0 (ds @ [d])"
  unfolding lifetime_ok_def
proof (intro allI impI)
  fix k e' assume e': "cluster_registry (run s0 (ds @ [d])) k = Some e'"
  let ?s = "run s0 ds"
  let ?n = "int (length ds)"
  have sc: "step_count ?s = ?n" using c by (simp add: step_count_run)
  have rs: "reachable ?s" by (rule reachable_run[OF r])
  have e1: "cluster_registry (step d ?s) k = Some e'" using e' by (simp add: run_snoc)
  have old: "\<And>e. cluster_registry ?s k = Some e \<Longrightarrow>
        1 \<le> birth e \<and> birth e \<le> ?n \<and>
        lifetime_sizes s0 ds k (birth e) \<noteq> [] \<and>
        max_size e = Max (set (lifetime_sizes s0 ds k (birth e)))"
    using ok unfolding lifetime_ok_def by blast
  show "1 \<le> birth e' \<and> birth e' \<le> int (length (ds @ [d])) \<and>
        lifetime_sizes s0 (ds @ [d]) k (birth e') \<noteq> [] \<and>
        max_size e' = Max (set (lifetime_sizes s0 (ds @ [d]) k (birth e')))"
  proof (cases "k \<in> set (active_cluster_ids (step d ?s))")
    case True
    have eq: "e' = tracked_info (step d ?s) (?n + 1) k (cluster_registry ?s k)"
      using active_entry_step[OF reachable_registry_ok[OF rs] True] e1 sc by simp
    show ?thesis
    proof (cases "cluster_registry ?s k")
      case None
      have b: "birth e' = ?n + 1" using eq None by simp
      have "lifetime_sizes s0 (ds @ [d]) k (?n + 1) = [cluster_size (step d ?s) k]"
        using True by (simp add: lifetime_sizes_def run_snoc nat_add_distrib)
      then show ?thesis using eq None b by simp
    next
      case (Some e)
      note o = old[OF Some]
      have b: "birth e' = birth e" using eq Some by simp
      have l: "lifetime_sizes s0 (ds @ [d]) k (birth e) =
          lifetime_sizes s0 ds k (birth e) @ [cluster_size (step d ?s) k]"
        using o True by (simp add: lifetime_sizes_snoc)
      have m: "max_size e' = max (max_size e) (cluster_size (step d ?s) k)"
        using eq Some by simp
      have "Max (set (lifetime_sizes s0 ds k (birth e) @ [cluster_size (step d ?s) k])) =
            max (Max (set (lifetime_sizes s0 ds k (birth e)))) (cluster_size (step d ?s) k)"
        using o by (simp add: max.commute)
      then show ?thesis using o b l m by simp
    qed
  next
    case False
    from e1 False obtain e where e: "cluster_registry ?s k = Some e"
      and same: "birth e' = birth e" "max_size e' = max_size e"
      by (cases "cluster_registry ?s k")
         (auto simp: registry_step pruned_info_Some split: if_splits)
    note o = old[OF e]
    have l: "lifetime_sizes s0 (ds @ [d]) k (birth e) = lifetime_sizes s0 ds k (birth e)"
      using o False by (simp add: lifetime_sizes_snoc)
    show ?thesis using o same l by simp
  qed
qed

lemma lifetime_ok_run:
  assumes i: "init mem gs pt pf rnd = Inr s0"
  shows "lifetime_ok s0 ds"
proof (induction ds rule: rev_induct)
  case Nil
  from i have "cluster_registry s0 = Map.empty" by (auto simp: init_def Let_def split: option.splits)
  then show ?case by (simp add: lifetime_ok_def)
next
  case (snoc d ds)
  from i have c: "step_count s0 = 0" by (auto simp: init_def Let_def split: option.splits)
  show ?case by (rule lifetime_ok_snoc[OF reachable_init[OF i] c snoc])
qed

lemma max_size_lifetime:
  assumes "init mem gs pt pf rnd = Inr s0" and "cluster_registry (run s0 ds) k = Some e"
  shows "1 \<le> birth e \<and> birth e \<le> int (length ds) \<and>
         lifetime_sizes s0 ds k (birth e) \<noteq> [] \<and>
         max_size e = Max (set (lifetime_sizes s0 ds k (birth e)))"
  using lifetime_ok_run[OF assms(1), of ds] assms(2) unfolding lifetime_ok_def by blast

section \<open>Steps without lightning\<close>

lemma no_lightning_no_new_fires:
  assumes "\<forall>i j. p_fire s \<le> rnd_fire d i j"
  shows "num_new_fires d s = 0"
proof -
  have "\<not> entry (new_lightning_mask d s) c" if "c \<in> set (cells (grid_size s))" for c
  proof -
    obtain i j where c: "c = (i, j)" by (cases c)
    with that have ij: "i < grid_size s" "j < grid_size s" by (simp_all add: in_cells)
    have "\<not> rnd_fire d i j < p_fire s" using assms by (simp add: not_less)
    then show ?thesis
      using ij by (auto simp: c entry_def new_lightning_mask_def mask_and_def mask_not_def
          fire_neighbors_mask_iff ignited_trees_iff)
  qed
  then show ?thesis by (simp add: num_new_fires_def np_sum_def filter_empty_conv)
qed

lemma dead_entry_step:
  assumes e: "cluster_registry s k = Some e" and t: "death e = Some t"
    and na: "k \<notin> set (active_cluster_ids (step d s))"
  shows "cluster_registry (step d s) k =
           (if step_count s + 1 - t > int (window_size s) then None else Some e)"
proof -
  have "marked_info (step_count s + 1) e = e" using t by (simp add: marked_info_def)
  then show ?thesis
    using e t na by (simp add: registry_step pruned_info_def)
qed

lemma none_step:
  assumes "cluster_registry s k = None" and "k \<notin> set (active_cluster_ids (step d s))"
  shows "cluster_registry (step d s) k = None"
  using assms by (simp add: registry_step pruned_info_def)

lemma inactive_step:
  assumes q: "k = 0 \<or> \<not> carried s k" and nl: "num_new_fires d s = 0"
  shows "k \<notin> set (active_cluster_ids (step d s)) \<and> (k = 0 \<or> \<not> carried (step d s) k)"
proof (cases "k = 0")
  case True
  then show ?thesis by (simp add: set_active_cluster_ids)
next
  case False
  with q have "\<not> carried (step d s) k" using nl by (intro not_carried_step) auto
  then show ?thesis using active_carried by blast
qed

lemma dead_entry_run:
  assumes "cluster_registry s k = (if gone then None else Some e)" and "death e = Some t"
    and "k = 0 \<or> \<not> carried s k"
    and "\<forall>d \<in> set ds. \<forall>i j. p_fire s \<le> rnd_fire d i j"
    and "gone \<longrightarrow> step_count s - t > int (window_size s)"
    and "0 \<le> step_count s - t"
  shows "cluster_registry (run s ds) k =
           (if gone \<or> (ds \<noteq> [] \<and> step_count s + int (length ds) - t > int (window_size s))
            then None else Some e)"
  using assms
proof (induction ds arbitrary: s gone)
  case Nil
  then show ?case by simp
next
  case (Cons d ds)
  let ?gone' = "step_count s + 1 - t > int (window_size s)"
  have nl: "num_new_fires d s = 0"
    using Cons.prems(4) by (intro no_lightning_no_new_fires) simp
  note ia = inactive_step[OF Cons.prems(3) nl]
  have r: "cluster_registry (step d s) k = (if ?gone' then None else Some e)"
  proof (cases gone)
    case True
    with Cons.prems(1,5) none_step[of s k d] ia show ?thesis by simp
  next
    case False
    with Cons.prems(1) have "cluster_registry s k = Some e" by simp
    from dead_entry_step[OF this Cons.prems(2)] ia show ?thesis by simp
  qed
  have "cluster_registry (run (step d s) ds) k =
      (if ?gone' \<or> (ds \<noteq> [] \<and> step_count (step d s) + int (length ds) - t
             > int (window_size (step d s)))
       then None else Some e)"
  proof (rule Cons.IH)
    show "cluster_registry (step d s) k = (if ?gone' then None else Some e)" by (rule r)
    show "death e = Some t" by (rule Cons.prems(2))
    show "k = 0 \<or> \<not> carried (step d s) k" using ia by simp
    show "\<forall>d'\<in>set ds. \<forall>i j. p_fire (step d s) \<le> rnd_fire d' i j"
      using Cons.prems(4) by simp
    show "?gone' \<longrightarrow> int (window_size (step d s)) < step_count (step d s) - t" by simp
    show "0 \<le> step_count (step d s) - t" using Cons.prems(6) by simp
  qed
  moreover have "gone \<longrightarrow> ?gone'" using Cons.prems(5) by auto
  ultimately show ?case by (auto simp: algebra_simps)
qed

section \<open>The 2 by 2 forest, state by state\<close>

lemma cells_2: "cells 2 = [(0, 0), (0, Suc 0), (Suc 0, 0), (Suc 0, Suc 0)]"
  by (simp add: cells_def numeral_2_eq_2 upt_rec)

lemma np_zeros_plenty [simp]:
  "np_zeros_error plenty 0 = None" "np_zeros_error plenty 2 = None"
  "np_zeros_error plenty 3 = None"
  by (simp_all add: np_zeros_error_def plenty_def max_array_bytes_def)

lemma init_forest: "init plenty 2 0 (1/2) no_draws = Inr forest"
  by (simp add: forest_def init_def)

lemma forest_fields [simp]:
  "grid_size forest = 2" "p_tree forest = 0" "p_fire forest = 1/2"
  "grid forest i j = 1" "fire_cluster_ids forest i j = 0"
  "next_cluster_id forest = 1" "step_count forest = 0" "window_size forest = 6000"
  "active_fire_history forest = new_deque 6000"
  "cluster_registry forest k = None" "current_clusters forest = []"
  by (simp_all add: forest_def init_def Let_def assign_def no_draws_def zeros_def)

lemma calm_fields [simp]: "rnd_tree calm i j = 0" "rnd_fire calm i j = 3/4"
  by (simp_all add: calm_def no_draws_def)

lemma strike_corner_fields [simp]:
  "rnd_tree strike_corner i j = 0"
  "rnd_fire strike_corner i j = (if i = 0 \<and> j = 0 then 0 else 3/4)"
  by (simp_all add: strike_corner_def no_draws_def)

lemma forest_no_fire [simp]: "\<not> has_fire_neighbor forest i j"
  by (simp add: has_fire_neighbor_def)

lemma ignited_f1 [simp]:
  "i < 2 \<Longrightarrow> j < 2 \<Longrightarrow> ignited_trees strike_corner forest i j \<longleftrightarrow> i = 0 \<and> j = 0"
  by (simp add: ignited_trees_iff)

lemma lightning_f1 [simp]:
  "i < 2 \<Longrightarrow> j < 2 \<Longrightarrow> new_lightning_mask strike_corner forest i j \<longleftrightarrow> i = 0 \<and> j = 0"
  by (simp add: new_lightning_mask_def mask_and_def mask_not_def fire_neighbors_mask_iff)

lemma num_new_fires_f1 [simp]: "num_new_fires strike_corner forest = Suc 0"
  by (simp add: num_new_fires_def np_sum_def cells_2 entry_def)

lemma not_ash_forest [simp]: "\<not> active_ash_mask d forest i j"
  by (simp add: active_ash_mask_iff)

lemma f1_fields [simp]:
  "grid_size f1 = 2" "p_tree f1 = 0" "p_fire f1 = 1/2"
  "next_cluster_id f1 = 2" "step_count f1 = 1" "window_size f1 = 6000"
  by (simp_all add: f1_def step_next)

lemma f1_grid [simp]:
  "i < 2 \<Longrightarrow> j < 2 \<Longrightarrow> grid f1 i j = (if i = 0 \<and> j = 0 then 2 else 1)"
  by (simp add: f1_def grid_update_grid)

lemma f1_ids [simp]:
  "i < 2 \<Longrightarrow> j < 2 \<Longrightarrow> fire_cluster_ids f1 i j = (if i = 0 \<and> j = 0 then 1 else 0)"
  by (simp add: f1_def ids_update_grid new_cluster_ids_eq mask_index_def cells_2)

lemma f1_active [simp]: "active_cluster_ids f1 = [1]"
  by (simp add: active_cluster_ids_def select_def cells_2 entry_def burning_def)

lemma f1_size [simp]: "cluster_size f1 1 = 1"
  by (simp add: cluster_size_def np_sum_def cells_2 entry_def)

lemma f1_registry [simp]:
  "cluster_registry f1 1 =
     Some \<lparr>birth = 1, death = None, max_size = 1,
           sizes = \<lparr>maxlen = 6000, items = [(1, 1)]\<rparr>\<rparr>"
  using f1_active f1_size unfolding f1_def
  by (simp add: registry_step pruned_info_def tracked_info_def deque_append_def new_deque_def)

lemma f1_current [simp]: "current_clusters f1 = [(1, 1)]"
  using f1_active f1_size unfolding f1_def by (simp add: current_clusters_step)

lemma two_cases: "i < 2 \<Longrightarrow> (i = 0 \<Longrightarrow> P) \<Longrightarrow> (i = Suc 0 \<Longrightarrow> P) \<Longrightarrow> P" for i :: nat
  by (auto dest: less_2_cases)

lemma f1_fire_neighbor [simp]:
  "i < 2 \<Longrightarrow> j < 2 \<Longrightarrow> has_fire_neighbor f1 i j \<longleftrightarrow> (i = 0 \<and> j = Suc 0) \<or> (i = Suc 0 \<and> j = 0)"
  by (erule two_cases; erule two_cases; simp add: has_fire_neighbor_def)

lemma ignited_f2 [simp]:
  "i < 2 \<Longrightarrow> j < 2 \<Longrightarrow>
   ignited_trees calm f1 i j \<longleftrightarrow> (i = 0 \<and> j = Suc 0) \<or> (i = Suc 0 \<and> j = 0)"
  by (auto simp: ignited_trees_iff)

lemma num_new_fires_f2 [simp]: "num_new_fires calm f1 = 0"
  by (rule no_lightning_no_new_fires) simp

lemma new_ids_f2 [simp]:
  "i < 2 \<Longrightarrow> j < 2 \<Longrightarrow> ignited_trees calm f1 i j \<Longrightarrow> new_cluster_ids calm f1 i j = 1"
  by (erule two_cases; erule two_cases; simp add: new_cluster_ids_eq max_neighbor_id_eq)

lemma ash_f2 [simp]:
  "i < 2 \<Longrightarrow> j < 2 \<Longrightarrow> active_ash_mask calm f1 i j \<longleftrightarrow> i = 0 \<and> j = 0"
  by (erule two_cases; erule two_cases; simp add: active_ash_mask_iff cells_2 entry_def)

lemma f2_fields [simp]:
  "grid_size f2 = 2" "p_tree f2 = 0" "p_fire f2 = 1/2"
  "next_cluster_id f2 = 2" "step_count f2 = 2" "window_size f2 = 6000"
  by (simp_all add: f2_def step_next)

lemma f2_grid [simp]:
  "i < 2 \<Longrightarrow> j < 2 \<Longrightarrow>
   grid f2 i j = (if i = 0 \<and> j = 0 then 3 else if i = Suc 0 \<and> j = Suc 0 then 1 else 2)"
  by (erule two_cases; erule two_cases; simp add: f2_def grid_update_grid new_trees_def mask_and_def)

lemma f2_ids [simp]:
  "i < 2 \<Longrightarrow> j < 2 \<Longrightarrow>
   fire_cluster_ids f2 i j = (if i = Suc 0 \<and> j = Suc 0 then 0 else 1)"
  by (erule two_cases; erule two_cases; simp add: f2_def ids_update_grid)

lemma f2_active [simp]: "active_cluster_ids f2 = [1]"
  by (simp add: active_cluster_ids_def select_def cells_2 entry_def burning_def)

lemma f2_size [simp]: "cluster_size f2 1 = 3"
  by (simp add: cluster_size_def np_sum_def cells_2 entry_def)

lemma f2_burning [simp]: "burning_count f2 1 = 2"
  by (simp add: burning_count_def cells_2 entry_def)

lemma f2_registry [simp]:
  "cluster_registry f2 1 =
     Some \<lparr>birth = 1, death = None, max_size = 3,
           sizes = \<lparr>maxlen = 6000, items = [(1, 1), (2, 3)]\<rparr>\<rparr>"
  using f2_active f2_size unfolding f2_def
  by (simp add: registry_step pruned_info_def tracked_info_def deque_append_def)

lemma f2_current [simp]: "current_clusters f2 = [(1, 3)]"
  using f2_active f2_size unfolding f2_def by (simp add: current_clusters_step)

lemma f2_fire_neighbor [simp]:
  "i < 2 \<Longrightarrow> j < 2 \<Longrightarrow> has_fire_neighbor f2 i j \<longleftrightarrow> (i = 0 \<and> j = 0) \<or> (i = Suc 0 \<and> j = Suc 0)"
  by (erule two_cases; erule two_cases; simp add: has_fire_neighbor_def)

lemma ignited_f3 [simp]:
  "i < 2 \<Longrightarrow> j < 2 \<Longrightarrow> ignited_trees calm f2 i j \<longleftrightarrow> i = Suc 0 \<and> j = Suc 0"
  by (erule two_cases; erule two_cases; simp add: ignited_trees_iff)

lemma new_ids_f3 [simp]: "new_cluster_ids calm f2 (Suc 0) (Suc 0) = 1"
  by (simp add: new_cluster_ids_eq max_neighbor_id_eq)

lemma ash_f3 [simp]:
  "i < 2 \<Longrightarrow> j < 2 \<Longrightarrow> active_ash_mask calm f2 i j \<longleftrightarrow> \<not> (i = Suc 0 \<and> j = Suc 0)"
  by (erule two_cases; erule two_cases; simp add: active_ash_mask_iff cells_2 entry_def)

lemma f3_fields [simp]:
  "grid_size f3 = 2" "p_tree f3 = 0" "p_fire f3 = 1/2"
  "step_count f3 = 3" "window_size f3 = 6000"
  by (simp_all add: f3_def)

lemma f3_grid [simp]:
  "i < 2 \<Longrightarrow> j < 2 \<Longrightarrow> grid f3 i j = (if i = Suc 0 \<and> j = Suc 0 then 2 else 3)"
  by (erule two_cases; erule two_cases; simp add: f3_def grid_update_grid)

lemma f3_ids [simp]: "i < 2 \<Longrightarrow> j < 2 \<Longrightarrow> fire_cluster_ids f3 i j = 1"
  by (erule two_cases; erule two_cases; simp add: f3_def ids_update_grid)

lemma f3_active [simp]: "active_cluster_ids f3 = [1]"
  by (simp add: active_cluster_ids_def select_def cells_2 entry_def burning_def)

lemma f3_size [simp]: "cluster_size f3 1 = 4"
  by (simp add: cluster_size_def np_sum_def cells_2 entry_def)

lemma f3_registry [simp]:
  "cluster_registry f3 1 =
     Some \<lparr>birth = 1, death = None, max_size = 4,
           sizes = \<lparr>maxlen = 6000, items = [(1, 1), (2, 3), (3, 4)]\<rparr>\<rparr>"
  using f3_active f3_size unfolding f3_def
  by (simp add: registry_step pruned_info_def tracked_info_def deque_append_def)

lemma f3_current [simp]: "current_clusters f3 = [(1, 4)]"
  using f3_active f3_size unfolding f3_def by (simp add: current_clusters_step)

lemma f3_fire_neighbor [simp]:
  "i < 2 \<Longrightarrow> j < 2 \<Longrightarrow> has_fire_neighbor f3 i j \<longleftrightarrow> (i = 0 \<and> j = Suc 0) \<or> (i = Suc 0 \<and> j = 0)"
  by (erule two_cases; erule two_cases; simp add: has_fire_neighbor_def)

lemma ignited_f4 [simp]: "i < 2 \<Longrightarrow> j < 2 \<Longrightarrow> \<not> ignited_trees calm f3 i j"
  by (simp add: ignited_trees_iff)

lemma ash_f4 [simp]: "i < 2 \<Longrightarrow> j < 2 \<Longrightarrow> \<not> active_ash_mask calm f3 i j"
  by (simp add: active_ash_mask_iff cells_2 entry_def)

lemma f4_fields [simp]:
  "grid_size f4 = 2" "p_tree f4 = 0" "p_fire f4 = 1/2"
  "step_count f4 = 4" "window_size f4 = 6000"
  by (simp_all add: f4_def)

lemma f4_grid [simp]: "i < 2 \<Longrightarrow> j < 2 \<Longrightarrow> grid f4 i j = 0"
  by (simp add: f4_def grid_update_grid new_trees_def mask_and_def)

lemma f4_ids [simp]: "i < 2 \<Longrightarrow> j < 2 \<Longrightarrow> fire_cluster_ids f4 i j = 0"
  by (simp add: f4_def ids_update_grid)

lemma f4_active [simp]: "active_cluster_ids f4 = []"
  by (simp add: active_cluster_ids_def select_def cells_2 entry_def burning_def)

lemma f4_burning [simp]: "burning_count f4 1 = 0"
  by (simp add: burning_count_def cells_2 entry_def)

lemma f4_registry [simp]:
  "cluster_registry f4 1 =
     Some \<lparr>birth = 1, death = Some 4, max_size = 4,
           sizes = \<lparr>maxlen = 6000, items = [(1, 1), (2, 3), (3, 4)]\<rparr>\<rparr>"
  using f4_active unfolding f4_def
  by (simp add: registry_step pruned_info_def marked_info_def)

lemma f4_current [simp]: "current_clusters f4 = []"
  using f4_active unfolding f4_def by (simp add: current_clusters_step)

lemma f4_not_carried [simp]: "\<not> carried f4 1"
  by (simp add: carried_def cells_2 entry_def)

lemma reachable_forest: "reachable forest"
  by (rule reachable_init[OF init_forest])

lemma reachable_f1: "reachable f1" unfolding f1_def by (rule reachable_step[OF reachable_forest])

lemma reachable_f2: "reachable f2" unfolding f2_def by (rule reachable_step[OF reachable_f1])

lemma reachable_f3: "reachable f3" unfolding f3_def by (rule reachable_step[OF reachable_f2])

lemma reachable_f4: "reachable f4" unfolding f4_def by (rule reachable_step[OF reachable_f3])

lemma f2_ash [simp]: "ash_count f2 1 = 1"
  by (simp add: ash_count_def cells_2 entry_def)

lemma window_size_run [simp]: "window_size (run s ds) = window_size s"
  by (induction ds arbitrary: s) simp_all

lemma grid_size_run [simp]: "grid_size (run s ds) = grid_size s"
  by (induction ds arbitrary: s) simp_all

lemma p_fire_run [simp]: "p_fire (run s ds) = p_fire s"
  by (induction ds arbitrary: s) simp_all

lemma f4_late:
  "n \<le> 6000 \<Longrightarrow> cluster_registry (run f4 (replicate n calm)) 1 = Some burnt_out"
  using dead_entry_run[of f4 1 False burnt_out 4 "replicate n calm"]
  by (simp add: burnt_out_def)

lemma f1_history [simp]:
  "active_fire_history f1 = \<lparr>maxlen = 6000, items = [(1, 1)]\<rparr>"
  unfolding f1_def
  by (simp add: history_step np_sum_def cells_2 entry_def burning_def grid_update_grid
      deque_append_def new_deque_def)

section \<open>Scenario B, state by state\<close>

lemma three_cases:
  "i < 3 \<Longrightarrow> (i = 0 \<Longrightarrow> P) \<Longrightarrow> (i = Suc 0 \<Longrightarrow> P) \<Longrightarrow> (i = 2 \<Longrightarrow> P) \<Longrightarrow> P" for i :: nat
  by (cases i rule: nat.exhaust; auto simp: numeral_3_eq_3 numeral_2_eq_2 less_Suc_eq)

lemma cells_3:
  "cells 3 = [(0, 0), (0, Suc 0), (0, 2), (Suc 0, 0), (Suc 0, Suc 0), (Suc 0, 2),
              (2, 0), (2, Suc 0), (2, 2)]"
  by (simp add: cells_def numeral_3_eq_3 numeral_2_eq_2 upt_rec)

lemma still_fields [simp]: "rnd_tree still i j = 0" "rnd_fire still i j = 0"
  by (simp_all add: still_def no_draws_def)

lemma scenario_b_fields [simp]:
  "grid_size scenario_b = 3" "p_tree scenario_b = 0" "p_fire scenario_b = 0"
  "grid scenario_b = scenario_b_grid" "fire_cluster_ids scenario_b = scenario_b_ids"
  "step_count scenario_b = 0" "window_size scenario_b = 6000"
  "cluster_registry scenario_b k = None" "current_clusters scenario_b = []"
  by (simp_all add: scenario_b_def init_def Let_def)

lemma ignited_sb1 [simp]:
  "i < 3 \<Longrightarrow> j < 3 \<Longrightarrow> ignited_trees still scenario_b i j \<longleftrightarrow> (i = 0 \<or> i = 2) \<and> j = Suc 0"
  by (erule three_cases; erule three_cases;
      simp add: ignited_trees_iff has_fire_neighbor_def scenario_b_grid_def)

lemma new_ids_sb1 [simp]:
  "new_cluster_ids still scenario_b 0 (Suc 0) = 1"
  "new_cluster_ids still scenario_b 2 (Suc 0) = 2"
  by (simp_all add: new_cluster_ids_eq has_fire_neighbor_def max_neighbor_id_eq
      scenario_b_grid_def scenario_b_ids_def)

lemma ash_sb1 [simp]:
  "i < 3 \<Longrightarrow> j < 3 \<Longrightarrow>
   active_ash_mask still scenario_b i j \<longleftrightarrow> (i = 0 \<and> j = 0) \<or> (i = 2 \<and> j = 2)"
  by (erule three_cases; erule three_cases;
      simp add: active_ash_mask_iff cells_3 entry_def scenario_b_grid_def scenario_b_ids_def)

lemma sb1_fields [simp]:
  "grid_size sb1 = 3" "p_tree sb1 = 0" "p_fire sb1 = 0" "step_count sb1 = 1"
  "window_size sb1 = 6000"
  by (simp_all add: sb1_def)

lemma sb1_grid [simp]:
  "i < 3 \<Longrightarrow> j < 3 \<Longrightarrow>
   grid sb1 i j = (if (i = 0 \<and> j = 0) \<or> (i = 2 \<and> j = 2) then 3
                   else if (i = 0 \<or> i = 2) \<and> j = Suc 0 then 2 else 0)"
  by (erule three_cases; erule three_cases;
      simp add: sb1_def grid_update_grid new_trees_def mask_and_def scenario_b_grid_def)

lemma sb1_ids [simp]:
  "i < 3 \<Longrightarrow> j < 3 \<Longrightarrow>
   fire_cluster_ids sb1 i j =
     (if i = 0 \<and> (j = 0 \<or> j = Suc 0) then 1
      else if i = 2 \<and> (j = Suc 0 \<or> j = 2) then 2 else 0)"
  by (erule three_cases; erule three_cases;
      simp add: sb1_def ids_update_grid scenario_b_ids_def)

lemma sb1_active [simp]: "active_cluster_ids sb1 = [1, 2]"
  by (simp add: active_cluster_ids_def select_def cells_3 entry_def burning_def)

lemma sb1_size [simp]: "cluster_size sb1 1 = 2" "cluster_size sb1 2 = 2"
  by (simp_all add: cluster_size_def np_sum_def cells_3 entry_def)

lemma sb1_burning [simp]: "burning_count sb1 1 = 1" "burning_count sb1 2 = 1"
  by (simp_all add: burning_count_def cells_3 entry_def)

lemma sb1_registry [simp]:
  "cluster_registry sb1 1 =
     Some \<lparr>birth = 1, death = None, max_size = 2,
           sizes = \<lparr>maxlen = 6000, items = [(1, 2)]\<rparr>\<rparr>"
  "cluster_registry sb1 2 =
     Some \<lparr>birth = 1, death = None, max_size = 2,
           sizes = \<lparr>maxlen = 6000, items = [(1, 2)]\<rparr>\<rparr>"
  using sb1_active sb1_size unfolding sb1_def
  by (simp_all add: registry_step pruned_info_def tracked_info_def deque_append_def new_deque_def)

lemma sb1_current [simp]: "current_clusters sb1 = [(1, 2), (2, 2)]"
  using sb1_active sb1_size unfolding sb1_def by (simp add: current_clusters_step)

lemma ignited_sb2 [simp]: "i < 3 \<Longrightarrow> j < 3 \<Longrightarrow> \<not> ignited_trees still sb1 i j"
  by (simp add: ignited_trees_iff)

lemma ash_sb2 [simp]: "i < 3 \<Longrightarrow> j < 3 \<Longrightarrow> \<not> active_ash_mask still sb1 i j"
  by (simp add: active_ash_mask_iff cells_3 entry_def)

lemma sb2_fields [simp]:
  "grid_size sb2 = 3" "p_tree sb2 = 0" "p_fire sb2 = 0" "step_count sb2 = 2"
  "window_size sb2 = 6000"
  by (simp_all add: sb2_def)

lemma sb2_grid [simp]: "i < 3 \<Longrightarrow> j < 3 \<Longrightarrow> grid sb2 i j = 0"
  by (simp add: sb2_def grid_update_grid new_trees_def mask_and_def)

lemma sb2_ids [simp]: "i < 3 \<Longrightarrow> j < 3 \<Longrightarrow> fire_cluster_ids sb2 i j = 0"
  by (simp add: sb2_def ids_update_grid)

lemma sb2_burning [simp]: "burning_count sb2 k = 0"
  by (simp add: burning_count_def cells_3 entry_def)

lemma sb2_active [simp]: "active_cluster_ids sb2 = []"
  by (simp add: active_cluster_ids_def select_def cells_3 entry_def burning_def)

lemma sb2_registry [simp]:
  "cluster_registry sb2 1 =
     Some \<lparr>birth = 1, death = Some 2, max_size = 2,
           sizes = \<lparr>maxlen = 6000, items = [(1, 2)]\<rparr>\<rparr>"
  "cluster_registry sb2 2 =
     Some \<lparr>birth = 1, death = Some 2, max_size = 2,
           sizes = \<lparr>maxlen = 6000, items = [(1, 2)]\<rparr>\<rparr>"
  using sb2_active unfolding sb2_def
  by (simp_all add: registry_step pruned_info_def marked_info_def)

lemma sb2_not_carried [simp]: "\<not> carried sb2 1" "\<not> carried sb2 2"
  by (simp_all add: carried_def cells_3 entry_def)

lemma sb2_late:
  "cluster_registry (run sb2 (replicate n still)) 1 =
     (if n > 6000 then None else Some b_dead)"
  using dead_entry_run[of sb2 1 False b_dead 2 "replicate n still"]
  by (auto simp: b_dead_def)

lemma recorded_size_step:
  assumes r: "reachable s" and a: "k \<in> set (active_cluster_ids (step d s))"
  shows "\<exists>e'. cluster_registry (step d s) k = Some e' \<and>
           last (items (sizes e')) = (step_count (step d s), cluster_size (step d s) k) \<and>
           max_size e' =
             (case cluster_registry s k of
                None \<Rightarrow> cluster_size (step d s) k
              | Some e \<Rightarrow> max (max_size e) (cluster_size (step d s) k)) \<and>
           cluster_size (step d s) k = burning_count (step d s) k + ash_count (step d s) k"
proof -
  have ok: "ids_ok (step d s)" using r by (intro ids_ok_step reachable_ids_ok)
  have h: "history_ok s" using r by (rule reachable_history_ok)
  have e': "cluster_registry (step d s) k =
      Some (tracked_info (step d s) (step_count s + 1) k (cluster_registry s k))"
    by (rule active_entry_step[OF reachable_registry_ok[OF r] a])
  have w: "window_size s = 6000" using h by (simp add: history_ok_def)
  have "last (items (deque_append q x)) = x" if "0 < maxlen q" for q :: "(int \<times> nat) deque" and x
    using that by (simp add: deque_append_def)
  then have l: "last (items (sizes (tracked_info (step d s) (step_count s + 1) k (cluster_registry s k)))) =
      (step_count s + 1, cluster_size (step d s) k)"
    using h w by (cases "cluster_registry s k") (auto simp: history_ok_def new_deque_def)
  show ?thesis
    using e' l cluster_size_split[OF ok active_pos[OF ok a]] by simp
qed

lemma sb2_late_2:
  "cluster_registry (run sb2 (replicate n still)) 2 =
     (if n > 6000 then None else Some b_dead)"
  using dead_entry_run[of sb2 2 False b_dead 2 "replicate n still"]
  by (auto simp: b_dead_def)

lemma death_marked_then_kept:
  assumes pf: "p_fire s = 0" and dr: "\<forall>d' \<in> set (d # ds). \<forall>i j. 0 \<le> rnd_fire d' i j"
    and e: "cluster_registry s k = Some e" and alive: "death e = None"
    and prev: "k \<in> fst ` set (current_clusters s)"
    and dead: "burning_count (step d s) k = 0"
  shows "cluster_registry (run (step d s) ds) k =
           (if length ds > window_size s then None
            else Some (e\<lparr>death := Some (step_count (step d s))\<rparr>))"
proof -
  let ?e1 = "e\<lparr>death := Some (step_count s + 1)\<rparr>"
  have na: "k \<notin> set (active_cluster_ids (step d s))"
    using dead by (simp add: set_active_cluster_ids)
  have m: "marked_info (step_count s + 1) e = ?e1" using alive by (simp add: marked_info_def)
  have r1: "cluster_registry (step d s) k = Some ?e1"
    using e prev na m by (simp add: registry_step pruned_info_def)
  have q: "k = 0 \<or> \<not> carried (step d s) k"
    using carried_after_step[of k d s] dead by auto
  have "cluster_registry (run (step d s) ds) k =
      (if False \<or> (ds \<noteq> [] \<and> step_count (step d s) + int (length ds) - (step_count s + 1)
            > int (window_size (step d s)))
       then None else Some ?e1)"
  proof (rule dead_entry_run)
    show "cluster_registry (step d s) k = (if False then None else Some ?e1)" using r1 by simp
    show "death ?e1 = Some (step_count s + 1)" by simp
    show "k = 0 \<or> \<not> carried (step d s) k" by (rule q)
    show "\<forall>d'\<in>set ds. \<forall>i j. p_fire (step d s) \<le> rnd_fire d' i j" using pf dr by simp
  qed simp_all
  then show ?thesis by auto
qed

section \<open>The registry life of an id without lightning\<close>

lemma run_append: "run s (xs @ ys) = run (run s xs) ys"
  by (induction xs arbitrary: s) simp_all

lemma run_take_Suc:
  "n < length ds \<Longrightarrow> run s (take (Suc n) ds) = step (ds ! n) (run s (take n ds))"
  by (simp add: take_Suc_conv_app_nth run_snoc)

lemma alive_step:
  assumes a: "k \<in> set (active_cluster_ids (step d s))"
    and old: "cluster_registry s k = None \<or>
              (\<exists>e. cluster_registry s k = Some e \<and> death e = None \<and> birth e = b)"
    and b: "cluster_registry s k = None \<Longrightarrow> b = step_count s + 1"
  shows "\<exists>e. cluster_registry (step d s) k = Some e \<and> death e = None \<and> birth e = b \<and>
             k \<in> fst ` set (current_clusters (step d s))"
proof -
  have c: "k \<in> fst ` set (current_clusters (step d s))"
    using a by (simp add: current_clusters_step image_iff)
  from old show ?thesis
  proof
    assume n: "cluster_registry s k = None"
    with a b c show ?thesis by (simp add: registry_step pruned_info_def)
  next
    assume "\<exists>e. cluster_registry s k = Some e \<and> death e = None \<and> birth e = b"
    then obtain e where "cluster_registry s k = Some e" "death e = None" "birth e = b" by blast
    with a c show ?thesis by (simp add: registry_step pruned_info_def)
  qed
qed

lemma alive_prefix:
  assumes empty: "cluster_registry s0 k = None" and k: "k \<noteq> 0"
    and n: "1 \<le> n" "n \<le> length ds"
    and burns: "\<forall>m \<in> {1..n}. burning_count (run s0 (take m ds)) k \<noteq> 0"
  shows "\<exists>e. cluster_registry (run s0 (take n ds)) k = Some e \<and> death e = None \<and>
             birth e = step_count s0 + 1 \<and>
             k \<in> fst ` set (current_clusters (run s0 (take n ds)))"
  using n burns
proof (induction n rule: nat_induct_at_least)
  case base
  have lt: "0 < length ds" using base by (cases ds) simp_all
  have r: "run s0 (take 1 ds) = step (ds ! 0) s0"
    using run_take_Suc[OF lt, of s0] by simp
  have "(1::nat) \<in> {1..1}" by simp
  with base(2) have "burning_count (run s0 (take 1 ds)) k \<noteq> 0" by blast
  then have a: "k \<in> set (active_cluster_ids (step (ds ! 0) s0))"
    using k r by (simp add: set_active_cluster_ids)
  show ?case
    unfolding r by (rule alive_step[OF a]) (simp_all add: empty)
next
  case (Suc n)
  have lt: "n < length ds" using Suc.prems by simp
  have r: "run s0 (take (Suc n) ds) = step (ds ! n) (run s0 (take n ds))"
    by (rule run_take_Suc[OF lt])
  have "\<exists>e. cluster_registry (run s0 (take n ds)) k = Some e \<and> death e = None \<and>
             birth e = step_count s0 + 1 \<and>
             k \<in> fst ` set (current_clusters (run s0 (take n ds)))"
    using Suc.IH Suc.prems by simp
  then have old: "cluster_registry (run s0 (take n ds)) k = None \<or>
      (\<exists>e. cluster_registry (run s0 (take n ds)) k = Some e \<and> death e = None \<and>
           birth e = step_count s0 + 1)"
    and ne: "cluster_registry (run s0 (take n ds)) k \<noteq> None" by auto
  have "Suc n \<in> {1..Suc n}" by simp
  with Suc.prems(2) have "burning_count (run s0 (take (Suc n) ds)) k \<noteq> 0" by blast
  then have a: "k \<in> set (active_cluster_ids (step (ds ! n) (run s0 (take n ds))))"
    using k r by (simp add: set_active_cluster_ids)
  show ?case
    unfolding r by (rule alive_step[OF a old]) (use ne in simp)
qed

lemma none_run:
  assumes "cluster_registry s k = None" and "k = 0 \<or> \<not> carried s k"
    and "\<forall>d \<in> set ds. \<forall>i j. p_fire s \<le> rnd_fire d i j"
  shows "cluster_registry (run s ds) k = None"
  using assms
proof (induction ds arbitrary: s)
  case Nil
  then show ?case by simp
next
  case (Cons d ds)
  have nl: "num_new_fires d s = 0"
    using Cons.prems(3) by (intro no_lightning_no_new_fires) simp
  note ia = inactive_step[OF Cons.prems(2) nl]
  have "cluster_registry (step d s) k = None"
    using none_step[OF Cons.prems(1)] ia by simp
  moreover have "\<forall>d' \<in> set ds. \<forall>i j. p_fire (step d s) \<le> rnd_fire d' i j"
    using Cons.prems(3) by simp
  ultimately show ?case using Cons.IH[of "step d s"] ia by simp
qed

lemma bare_fields [simp]:
  "grid_size scenario_b_bare = 3" "p_tree scenario_b_bare = 0" "p_fire scenario_b_bare = 0"
  "grid scenario_b_bare = bare_grid" "fire_cluster_ids scenario_b_bare = scenario_b_ids"
  "step_count scenario_b_bare = 0" "window_size scenario_b_bare = 6000"
  "cluster_registry scenario_b_bare k = None" "current_clusters scenario_b_bare = []"
  by (simp_all add: scenario_b_bare_def init_def Let_def)

lemma ignited_bare [simp]: "i < 3 \<Longrightarrow> j < 3 \<Longrightarrow> \<not> ignited_trees still scenario_b_bare i j"
  by (simp add: ignited_trees_iff bare_grid_def)

lemma ash_bare [simp]: "i < 3 \<Longrightarrow> j < 3 \<Longrightarrow> \<not> active_ash_mask still scenario_b_bare i j"
  by (simp add: active_ash_mask_iff cells_3 entry_def)

lemma bare1_grid [simp]: "i < 3 \<Longrightarrow> j < 3 \<Longrightarrow> grid (step still scenario_b_bare) i j = 0"
  by (erule three_cases; erule three_cases;
      simp add: grid_update_grid new_trees_def mask_and_def bare_grid_def)

lemma bare1_burning [simp]: "burning_count (step still scenario_b_bare) k = 0"
  by (simp add: burning_count_def cells_3 entry_def del: step_grid)

lemma bare1_registry [simp]: "cluster_registry (step still scenario_b_bare) k = None"
  using bare1_burning[of k]
  by (simp add: registry_step set_active_cluster_ids pruned_info_def del: bare1_burning)

lemma bare_late: "cluster_registry (run scenario_b_bare (still # ds)) 1 = None"
  if "\<forall>d \<in> set ds. \<forall>i j. 0 \<le> rnd_fire d i j"
proof -
  have "1 = (0::int) \<or> \<not> carried (step still scenario_b_bare) 1"
    using carried_after_step[of 1 still scenario_b_bare] by auto
  then show ?thesis
    using that by (simp, intro none_run) simp_all
qed

lemma first_dead_scenario_b:
  "first_dead_step scenario_b (still # still # ds) 1 2"
proof -
  have a: "run scenario_b (take 2 (still # still # ds)) = sb2"
    by (simp add: sb1_def sb2_def numeral_2_eq_2)
  have b: "run scenario_b (take m (still # still # ds)) = sb1" if "m \<in> {1..<2}" for m
  proof -
    from that have "m = 1" by auto
    then show ?thesis by (simp add: sb1_def)
  qed
  show ?thesis
    unfolding first_dead_step_def using a b by simp
qed

section \<open>The claims\<close>

text \<open>C1. In every state a simulator reaches (the constructor's state, then any number of
  steps with any draws), and at every cell of the grid, the cluster id is positive if the
  cell is burning (2) or ash (3), and 0 otherwise.\<close>

theorem state_id_coupling:
  "reachable s \<Longrightarrow> i < grid_size s \<Longrightarrow> j < grid_size s \<Longrightarrow>
   (if grid s i j = 2 \<or> grid s i j = 3 then 0 < fire_cluster_ids s i j
    else fire_cluster_ids s i j = 0)"
  using ids_okD[OF reachable_ids_ok, of s i j] by auto

text \<open>An instance: the corner cell of the 2 by 2 forest after the strike and one
  more step is ash and carries a positive id.\<close>

theorem state_id_coupling_witness:
  "reachable f2 \<and> (0::nat) < grid_size f2 \<and>
   (if grid f2 0 0 = 2 \<or> grid f2 0 0 = 3 then 0 < fire_cluster_ids f2 0 0
    else fire_cluster_ids f2 0 0 = 0)"
proof -
  have g: "(0::nat) < grid_size f2" by simp
  from reachable_f2 g state_id_coupling[OF reachable_f2 g g] show ?thesis by blast
qed

text \<open>C2. Whatever the state and the draws: if an id has no burning cell in the grid a step
  produces, then every cell that was burning or ash with that id before the step is empty
  after it (state 0, id 0), and no cell of the new grid is ash with that id.\<close>

theorem dead_cluster_cleared:
  assumes dead: "burning_count (step d s) k = 0"
    and ij: "i < grid_size s" "j < grid_size s"
  shows "((grid s i j = 2 \<or> grid s i j = 3) \<and> fire_cluster_ids s i j = k
            \<longrightarrow> grid (step d s) i j = 0 \<and> fire_cluster_ids (step d s) i j = 0) \<and>
         \<not> (grid (step d s) i j = 3 \<and> fire_cluster_ids (step d s) i j = k)"
proof (intro conjI impI notI)
  assume h: "(grid s i j = 2 \<or> grid s i j = 3) \<and> fire_cluster_ids s i j = k"
  have na: "\<not> active_ash_mask d s i j"
    using active_ash_has_fire[of d s i j] dead h by auto
  have ni: "\<not> ignited_trees d s i j"
    using h by (auto dest: ignited_trees_tree)
  show "grid (step d s) i j = 0"
    using na ni h by (auto simp: grid_update_grid new_trees_def mask_and_def empty_mask_def)
  show "fire_cluster_ids (step d s) i j = 0"
    using na ni by (simp add: ids_update_grid)
next
  assume h: "grid (step d s) i j = 3 \<and> fire_cluster_ids (step d s) i j = k"
  then have a: "active_ash_mask d s i j" using ash_after_step[of d s i j] by simp
  then have "fire_cluster_ids (step d s) i j = fire_cluster_ids s i j"
    by (auto simp: ids_update_grid dest: active_ash_not_ignited)
  with h active_ash_has_fire[OF a] dead show False by simp
qed

text \<open>An instance: in the 2 by 2 forest the fire with id 1 goes out in the fourth
  step, and the corner cell, ash with id 1 before, is empty after it.\<close>

theorem dead_cluster_cleared_witness:
  "burning_count (step calm f3) 1 = 0 \<and> (0::nat) < grid_size f3 \<and>
   grid f3 0 0 = 3 \<and> fire_cluster_ids f3 0 0 = 1 \<and>
   grid (step calm f3) 0 0 = 0 \<and> fire_cluster_ids (step calm f3) 0 0 = 0 \<and>
   \<not> (grid (step calm f3) 0 0 = 3 \<and> fire_cluster_ids (step calm f3) 0 0 = 1)"
proof -
  have b: "burning_count (step calm f3) 1 = 0" using f4_burning by (simp add: f4_def)
  have g: "(0::nat) < grid_size f3" by simp
  have c: "grid f3 0 0 = 3" "fire_cluster_ids f3 0 0 = 1" by simp_all
  from dead_cluster_cleared[OF b g g] c b g show ?thesis by blast
qed

text \<open>C3, as the code has it. For a simulator run from the constructor's state: at every
  step, every active id has a registry entry whose newest size sample is the step number
  with the number of cells that carry the id in the cluster-id grid of that step, which
  is the number of its burning cells plus the number of its ash cells; \<open>max_size\<close> is
  updated with that number; and the \<open>max_size\<close> of an entry is the largest such number
  over the steps, from the entry's birth on, at which the id was active.\<close>

theorem recorded_cluster_size:
  assumes i: "init mem gs pt pf rnd = Inr s0"
  shows "(k \<in> set (active_cluster_ids (step d (run s0 ds))) \<longrightarrow>
           (\<exists>e'. cluster_registry (step d (run s0 ds)) k = Some e' \<and>
              last (items (sizes e')) =
                (step_count (step d (run s0 ds)), cluster_size (step d (run s0 ds)) k) \<and>
              max_size e' =
                (case cluster_registry (run s0 ds) k of
                   None \<Rightarrow> cluster_size (step d (run s0 ds)) k
                 | Some e \<Rightarrow> max (max_size e) (cluster_size (step d (run s0 ds)) k)) \<and>
              cluster_size (step d (run s0 ds)) k =
                burning_count (step d (run s0 ds)) k + ash_count (step d (run s0 ds)) k)) \<and>
         (cluster_registry (run s0 ds) k = Some e \<longrightarrow>
            lifetime_sizes s0 ds k (birth e) \<noteq> [] \<and>
            max_size e = Max (set (lifetime_sizes s0 ds k (birth e))))"
proof (intro conjI impI)
  assume a: "k \<in> set (active_cluster_ids (step d (run s0 ds)))"
  have r: "reachable (run s0 ds)" by (rule reachable_run[OF reachable_init[OF i]])
  show "\<exists>e'. cluster_registry (step d (run s0 ds)) k = Some e' \<and>
              last (items (sizes e')) =
                (step_count (step d (run s0 ds)), cluster_size (step d (run s0 ds)) k) \<and>
              max_size e' =
                (case cluster_registry (run s0 ds) k of
                   None \<Rightarrow> cluster_size (step d (run s0 ds)) k
                 | Some e \<Rightarrow> max (max_size e) (cluster_size (step d (run s0 ds)) k)) \<and>
              cluster_size (step d (run s0 ds)) k =
                burning_count (step d (run s0 ds)) k + ash_count (step d (run s0 ds)) k"
    by (rule recorded_size_step[OF r a])
next
  assume e: "cluster_registry (run s0 ds) k = Some e"
  from max_size_lifetime[OF i e]
  show "lifetime_sizes s0 ds k (birth e) \<noteq> []"
    and "max_size e = Max (set (lifetime_sizes s0 ds k (birth e)))" by simp_all
qed

text \<open>An instance: id 1 of the 2 by 2 forest, after the strike and at the
  step after it.\<close>

theorem recorded_cluster_size_witness:
  "init plenty 2 0 (1/2) no_draws = Inr forest \<and>
   1 \<in> set (active_cluster_ids (step calm (run forest [strike_corner]))) \<and>
   cluster_registry (run forest [strike_corner]) 1 =
     Some \<lparr>birth = 1, death = None, max_size = 1,
           sizes = \<lparr>maxlen = 6000, items = [(1, 1)]\<rparr>\<rparr> \<and>
   (\<exists>e'. cluster_registry (step calm (run forest [strike_corner])) 1 = Some e' \<and>
      last (items (sizes e')) =
        (step_count (step calm (run forest [strike_corner])),
         cluster_size (step calm (run forest [strike_corner])) 1) \<and>
      max_size e' =
        (case cluster_registry (run forest [strike_corner]) 1 of
           None \<Rightarrow> cluster_size (step calm (run forest [strike_corner])) 1
         | Some e \<Rightarrow> max (max_size e) (cluster_size (step calm (run forest [strike_corner])) 1)) \<and>
      cluster_size (step calm (run forest [strike_corner])) 1 =
        burning_count (step calm (run forest [strike_corner])) 1 +
        ash_count (step calm (run forest [strike_corner])) 1) \<and>
   lifetime_sizes forest [strike_corner] 1 1 \<noteq> [] \<and>
   1 = Max (set (lifetime_sizes forest [strike_corner] 1 1))"
proof -
  have a: "1 \<in> set (active_cluster_ids (step calm (run forest [strike_corner])))"
    using f2_active by (simp add: f1_def f2_def)
  have e: "cluster_registry (run forest [strike_corner]) 1 =
     Some \<lparr>birth = 1, death = None, max_size = 1,
           sizes = \<lparr>maxlen = 6000, items = [(1, 1)]\<rparr>\<rparr>"
    using f1_registry by (simp add: f1_def)
  note t = recorded_cluster_size[OF init_forest, of 1 calm "[strike_corner]"
      "\<lparr>birth = 1, death = None, max_size = 1, sizes = \<lparr>maxlen = 6000, items = [(1, 1)]\<rparr>\<rparr>"]
  from t a have 1: "\<exists>e'. cluster_registry (step calm (run forest [strike_corner])) 1 = Some e' \<and>
      last (items (sizes e')) =
        (step_count (step calm (run forest [strike_corner])),
         cluster_size (step calm (run forest [strike_corner])) 1) \<and>
      max_size e' =
        (case cluster_registry (run forest [strike_corner]) 1 of
           None \<Rightarrow> cluster_size (step calm (run forest [strike_corner])) 1
         | Some e \<Rightarrow> max (max_size e) (cluster_size (step calm (run forest [strike_corner])) 1)) \<and>
      cluster_size (step calm (run forest [strike_corner])) 1 =
        burning_count (step calm (run forest [strike_corner])) 1 +
        ash_count (step calm (run forest [strike_corner])) 1"
    by blast
  from t e have 2: "lifetime_sizes forest [strike_corner] 1 1 \<noteq> [] \<and>
      1 = Max (set (lifetime_sizes forest [strike_corner] 1 1))"
    by simp
  from init_forest a e 1 2 show ?thesis by blast
qed

text \<open>With burning cells only, the statement fails: after the strike and one more step,
  id 1 has two burning cells, and the size recorded for step 2, also the new \<open>max_size\<close>,
  is 3: the ash cell of the cluster is counted.\<close>

theorem recorded_size_exceeds_burning_count:
  "cluster_registry (run forest [strike_corner, calm]) 1 =
     Some \<lparr>birth = 1, death = None, max_size = 3,
           sizes = \<lparr>maxlen = 6000, items = [(1, 1), (2, 3)]\<rparr>\<rparr> \<and>
   burning_count (run forest [strike_corner, calm]) 1 = 2"
  using f2_registry f2_burning by (simp add: f1_def f2_def)

text \<open>C4. In a reachable state, a tree cell that a step ignites receives the largest id among
  its burning neighbours (the four neighbours inside the grid) when it has one; when it has
  none, it receives one of the ids the step mints from the counter, an id that is at least
  the counter before the step, below the counter after it, carried by no cell before
  the step and by no other cell after it.\<close>

theorem ignition_id_assignment:
  assumes r: "reachable s" and ij: "i < grid_size s" "j < grid_size s"
    and t: "grid s i j = 1" and b: "grid (step d s) i j = 2"
  shows "if burning_neighbours s (i, j) \<noteq> []
         then fire_cluster_ids (step d s) i j =
                Max (set (map (entry (fire_cluster_ids s)) (burning_neighbours s (i, j))))
         else fire_cluster_ids (step d s) i j \<in> set (new_ids d s) \<and>
              next_cluster_id s \<le> fire_cluster_ids (step d s) i j \<and>
              fire_cluster_ids (step d s) i j < next_cluster_id (step d s) \<and>
              \<not> carried s (fire_cluster_ids (step d s) i j) \<and>
              (\<forall>c \<in> set (cells (grid_size s)).
                 entry (fire_cluster_ids (step d s)) c = fire_cluster_ids (step d s) i j
                   \<longrightarrow> c = (i, j))"
proof -
  have ok: "ids_ok s" by (rule reachable_ids_ok[OF r])
  have ig: "ignited_trees d s i j" using b ij by (simp add: grid_update_grid split: if_splits)
  have id: "fire_cluster_ids (step d s) i j = new_cluster_ids d s i j"
    using ig by (simp add: ids_update_grid)
  show ?thesis
  proof (cases "has_fire_neighbor s i j")
    case True
    then show ?thesis
      using max_neighbor_id_Max[OF ok ij True] new_cluster_ids_eq[OF ij ig] id
      by (simp add: burning_neighbours_empty)
  next
    case False
    with ij ig have m: "entry (new_lightning_mask d s) (i, j)"
      by (simp add: entry_def new_lightning_mask_def mask_and_def mask_not_def
          fire_neighbors_mask_iff)
    have c: "(i, j) \<in> set (cells (grid_size s))" using ij by (simp add: in_cells)
    have lt: "mask_index (grid_size s) (new_lightning_mask d s) (i, j) < num_new_fires d s"
      unfolding num_new_fires_def by (rule mask_index_less[OF c m])
    have eq: "new_cluster_ids d s i j =
        next_cluster_id s + int (mask_index (grid_size s) (new_lightning_mask d s) (i, j))"
      using new_cluster_ids_eq[OF ij ig] False by simp
    have mem: "new_cluster_ids d s i j \<in> set (new_ids d s)"
      unfolding eq new_ids_def arange_def using lt by simp
    have nc: "\<not> carried s (new_cluster_ids d s i j)"
    proof
      assume "carried s (new_cluster_ids d s i j)"
      from carriedD[OF this] obtain a b where "a < grid_size s" "b < grid_size s"
        "fire_cluster_ids s a b = new_cluster_ids d s i j" by blast
      with ids_okD[OF ok, of a b] eq show False by simp
    qed
    have u: "\<forall>c \<in> set (cells (grid_size s)).
        entry (fire_cluster_ids (step d s)) c = fire_cluster_ids (step d s) i j \<longrightarrow> c = (i, j)"
    proof (intro ballI impI)
      fix c assume c: "c \<in> set (cells (grid_size s))"
        and e: "entry (fire_cluster_ids (step d s)) c = fire_cluster_ids (step d s) i j"
      obtain a b where ab: "c = (a, b)" by (cases c)
      from c e lightning_id_unique[OF ok ij ig False, of a b] show "c = (i, j)"
        by (simp add: ab in_cells entry_def)
    qed
    show ?thesis
      using False mem nc new_ids_bounds[OF mem] id u by (simp add: burning_neighbours_empty)
  qed
qed

text \<open>Two instances: the cell right of the burning corner of the 2 by 2 forest inherits
  the corner's id; and the corner itself, struck by lightning in the first step, receives
  a minted id that its right neighbour does not carry.\<close>

theorem ignition_id_assignment_witness:
  "reachable f1 \<and> (0::nat) < grid_size f1 \<and> Suc 0 < grid_size f1 \<and>
   grid f1 0 (Suc 0) = 1 \<and> grid (step calm f1) 0 (Suc 0) = 2 \<and>
   burning_neighbours f1 (0, Suc 0) = [(0, 0)] \<and>
   fire_cluster_ids (step calm f1) 0 (Suc 0) =
     Max (set (map (entry (fire_cluster_ids f1)) (burning_neighbours f1 (0, Suc 0)))) \<and>
   reachable forest \<and> (0::nat) < grid_size forest \<and>
   grid forest 0 0 = 1 \<and> grid (step strike_corner forest) 0 0 = 2 \<and>
   burning_neighbours forest (0, 0) = [] \<and>
   fire_cluster_ids (step strike_corner forest) 0 0 \<in> set (new_ids strike_corner forest) \<and>
   next_cluster_id forest \<le> fire_cluster_ids (step strike_corner forest) 0 0 \<and>
   fire_cluster_ids (step strike_corner forest) 0 0 < next_cluster_id (step strike_corner forest) \<and>
   \<not> carried forest (fire_cluster_ids (step strike_corner forest) 0 0) \<and>
   (0, Suc 0) \<in> set (cells (grid_size forest)) \<and>
   entry (fire_cluster_ids (step strike_corner forest)) (0, Suc 0) \<noteq>
     fire_cluster_ids (step strike_corner forest) 0 0"
proof -
  have g: "(0::nat) < grid_size f1" "Suc 0 < grid_size f1" by simp_all
  have t: "grid f1 0 (Suc 0) = 1" by simp
  have b: "grid (step calm f1) 0 (Suc 0) = 2" using f2_grid[of 0 "Suc 0"] by (simp add: f2_def)
  have n: "burning_neighbours f1 (0, Suc 0) = [(0, 0)]"
    by (simp add: burning_neighbours_def neighbours_def entry_def)
  then have ne: "burning_neighbours f1 (0, Suc 0) \<noteq> []" by simp
  from ignition_id_assignment[OF reachable_f1 g t b] ne
  have 1: "fire_cluster_ids (step calm f1) 0 (Suc 0) =
     Max (set (map (entry (fire_cluster_ids f1)) (burning_neighbours f1 (0, Suc 0))))"
    by presburger
  have g0: "(0::nat) < grid_size forest" by simp
  have t0: "grid forest 0 0 = 1" by simp
  have b0: "grid (step strike_corner forest) 0 0 = 2"
    using f1_grid[of 0 0] by (simp add: f1_def)
  have n0: "burning_neighbours forest (0, 0) = []"
    by (simp add: burning_neighbours_def neighbours_def entry_def)
  have c: "(0, Suc 0) \<in> set (cells (grid_size forest))" by (simp add: cells_2)
  from ignition_id_assignment[OF reachable_forest g0 g0 t0 b0] n0
  have 2: "fire_cluster_ids (step strike_corner forest) 0 0 \<in> set (new_ids strike_corner forest) \<and>
   next_cluster_id forest \<le> fire_cluster_ids (step strike_corner forest) 0 0 \<and>
   fire_cluster_ids (step strike_corner forest) 0 0 < next_cluster_id (step strike_corner forest) \<and>
   \<not> carried forest (fire_cluster_ids (step strike_corner forest) 0 0) \<and>
   (\<forall>c \<in> set (cells (grid_size forest)).
      entry (fire_cluster_ids (step strike_corner forest)) c =
        fire_cluster_ids (step strike_corner forest) 0 0 \<longrightarrow> c = (0, 0))"
    by presburger
  then have 3: "entry (fire_cluster_ids (step strike_corner forest)) (0, Suc 0) \<noteq>
     fire_cluster_ids (step strike_corner forest) 0 0"
    using c by blast
  from reachable_f1 g t b n 1 reachable_forest g0 t0 b0 n0 2 c 3 show ?thesis by blast
qed

text \<open>C5. The ids minted along a run from a reachable state, in the order of minting, are
  strictly increasing, hence pairwise distinct; none of them is carried by a cell or has a
  registry entry in the state the run starts from; and the ids one step mints are the ids
  of the cells it ignites by lightning alone, in row-major order.\<close>

theorem minted_ids_increasing:
  assumes r: "reachable s"
  shows "sorted_wrt (<) (minted s ds) \<and> distinct (minted s ds) \<and>
         (x \<in> set (minted s ds) \<longrightarrow> \<not> carried s x \<and> cluster_registry s x = None) \<and>
         minted s [d] =
           select (grid_size s) (fire_cluster_ids (step d s)) (new_lightning_mask d s)"
proof -
  have st: "sorted_wrt (<) (minted s ds)" by (rule sorted_minted)
  then have d: "distinct (minted s ds)" using strict_sorted_iff by blast
  have "\<not> carried s x \<and> cluster_registry s x = None" if x: "x \<in> set (minted s ds)"
  proof -
    from minted_lower[OF x] have n: "next_cluster_id s \<le> x" .
    have "\<not> carried s x"
    proof
      assume "carried s x"
      from carriedD[OF this] obtain a b where "a < grid_size s" "b < grid_size s"
        "fire_cluster_ids s a b = x" by blast
      with ids_okD[OF reachable_ids_ok[OF r], of a b] n show False by simp
    qed
    moreover have "cluster_registry s x = None"
      using reachable_registry_ok[OF r] n unfolding registry_ok_def
      by (cases "cluster_registry s x") force+
    ultimately show ?thesis by simp
  qed
  with st d lightning_ids_in_order[of s d] show ?thesis by simp
qed

text \<open>An instance: the run of the 2 by 2 forest mints the single id 1.\<close>

theorem minted_ids_increasing_witness:
  "reachable forest \<and> minted forest [strike_corner, calm] = [1] \<and>
   sorted_wrt (<) (minted forest [strike_corner, calm]) \<and>
   distinct (minted forest [strike_corner, calm]) \<and>
   \<not> carried forest 1 \<and> cluster_registry forest 1 = None \<and>
   minted forest [strike_corner] =
     select (grid_size forest) (fire_cluster_ids (step strike_corner forest))
       (new_lightning_mask strike_corner forest)"
proof -
  have m: "minted forest [strike_corner, calm] = [1]"
    using num_new_fires_f2 by (simp add: new_ids_def arange_def f1_def)
  then have x: "1 \<in> set (minted forest [strike_corner, calm])" by simp
  from minted_ids_increasing[OF reachable_forest, of "[strike_corner, calm]" 1 strike_corner] x
  have "sorted_wrt (<) (minted forest [strike_corner, calm]) \<and>
   distinct (minted forest [strike_corner, calm]) \<and>
   \<not> carried forest 1 \<and> cluster_registry forest 1 = None \<and>
   minted forest [strike_corner] =
     select (grid_size forest) (fire_cluster_ids (step strike_corner forest))
       (new_lightning_mask strike_corner forest)" by blast
  with reachable_forest m show ?thesis by blast
qed

text \<open>C6. After a step, a registry entry with a death step \<open>t\<close> satisfies
  \<open>step_count - t \<le> window_size\<close>; and an entry whose death step is more than
  \<open>window_size\<close> steps back at the end of a step is not in the registry after it.\<close>

theorem registry_pruning:
  "(cluster_registry (step d s) k = Some info \<and> death info = Some t
      \<longrightarrow> step_count (step d s) - t \<le> int (window_size (step d s))) \<and>
   (cluster_registry s k = Some old \<and> death old = Some t' \<and>
    step_count (step d s) - t' > int (window_size s)
      \<longrightarrow> cluster_registry (step d s) k = None)"
  by (auto simp: registry_step pruned_info_Some pruned_info_None split: option.splits)

text \<open>An instance: the entry of id 1 of the 2 by 2 forest, dead at step 4, is in
  the registry at step 4 and still at step 6004, and is removed by step 6005.\<close>

theorem registry_pruning_witness:
  "cluster_registry (step calm f3) 1 = Some burnt_out \<and> death burnt_out = Some 4 \<and>
   step_count (step calm f3) - 4 \<le> int (window_size (step calm f3)) \<and>
   cluster_registry (run f4 (replicate 6000 calm)) 1 = Some burnt_out \<and>
   step_count (step calm (run f4 (replicate 6000 calm))) - 4
     > int (window_size (run f4 (replicate 6000 calm))) \<and>
   cluster_registry (step calm (run f4 (replicate 6000 calm))) 1 = None"
proof -
  have a: "cluster_registry (step calm f3) 1 = Some burnt_out"
    using f4_registry by (simp add: f4_def burnt_out_def)
  have b: "death burnt_out = Some 4" by (simp add: burnt_out_def)
  have c: "cluster_registry (run f4 (replicate 6000 calm)) 1 = Some burnt_out"
    by (rule f4_late) simp
  have d: "step_count (step calm (run f4 (replicate 6000 calm))) - 4
     > int (window_size (run f4 (replicate 6000 calm)))"
    by (simp add: step_count_run)
  note t1 = registry_pruning[of calm f3 1 burnt_out 4]
  note t2 = registry_pruning[of calm "run f4 (replicate 6000 calm)" 1 _ _ burnt_out 4]
  from t1 a b have 1: "step_count (step calm f3) - 4 \<le> int (window_size (step calm f3))"
    by blast
  from t2 c b d have 2: "cluster_registry (step calm (run f4 (replicate 6000 calm))) 1 = None"
    by blast
  from a b c d 1 2 show ?thesis by blast
qed

text \<open>C7, as the code has it. Scenario B: \<open>p_fire = 0\<close>, draws in \<open>[0, 1)\<close>, a start with
  no registry entry for the id (the registry of a new simulator is empty), any grid, an id
  other than 0, and \<open>t\<close> the first step at which the id has no burning cell; steps are
  counted from the start, whose step counter is 0 in a new simulator and is added to the
  births and deaths in general. If \<open>t = 1\<close>, the id never has a
  registry entry. Otherwise the id has an entry from step 1 on, born at step 1, with no
  death before step \<open>t\<close>; from step \<open>t\<close> on the entry's death is \<open>t\<close>; the entry is in the
  registry up to step \<open>t + window_size\<close> and absent from step \<open>t + window_size + 1\<close> on.\<close>

theorem scenario_b_registry_life:
  assumes pf: "p_fire s0 = 0" and dr: "\<forall>d \<in> set ds. \<forall>i j. 0 \<le> rnd_fire d i j"
    and empty: "cluster_registry s0 k = None" and k: "k \<noteq> 0"
    and t: "first_dead_step s0 ds k t"
  shows "(cluster_registry (run s0 ds) k = None \<longleftrightarrow>
            t = 1 \<or> length ds > t + window_size s0) \<and>
         (\<forall>e. cluster_registry (run s0 ds) k = Some e \<longrightarrow>
            birth e = step_count s0 + 1 \<and> death e = Some (step_count s0 + int t)) \<and>
         (\<forall>m \<in> {1..<t}. \<exists>e. cluster_registry (run s0 (take m ds)) k = Some e \<and>
            birth e = step_count s0 + 1 \<and> death e = None)"
proof -
  from t have t1: "1 \<le> t" and tl: "t \<le> length ds"
    and dead: "burning_count (run s0 (take t ds)) k = 0"
    and burns: "\<forall>m \<in> {1..<t}. burning_count (run s0 (take m ds)) k \<noteq> 0"
    by (simp_all add: first_dead_step_def)
  let ?pre = "run s0 (take (t - 1) ds)"
  let ?d = "ds ! (t - 1)"
  let ?rest = "drop t ds"
  have lt: "t - 1 < length ds" using t1 tl by simp
  have st: "run s0 (take t ds) = step ?d ?pre"
    using run_take_Suc[OF lt, of s0] t1 by simp
  have whole: "run s0 ds = run (step ?d ?pre) ?rest"
    using run_append[of s0 "take t ds" "drop t ds"] st by simp
  have dr_rest: "\<forall>d' \<in> set ?rest. \<forall>i j. 0 \<le> rnd_fire d' i j"
    using dr by (meson in_set_dropD)
  have dr_d: "\<forall>i j. 0 \<le> rnd_fire ?d i j" using dr lt by simp
  have len: "length ?rest = length ds - t" by simp
  have alive: "\<exists>e. cluster_registry (run s0 (take m ds)) k = Some e \<and> death e = None \<and>
             birth e = step_count s0 + 1 \<and>
             k \<in> fst ` set (current_clusters (run s0 (take m ds)))"
    if m: "m \<in> {1..<t}" for m
  proof (rule alive_prefix[OF empty k])
    show "1 \<le> m" "m \<le> length ds" using m tl by simp_all
    show "\<forall>m' \<in> {1..m}. burning_count (run s0 (take m' ds)) k \<noteq> 0"
      using burns m by simp
  qed
  have 3: "\<forall>m \<in> {1..<t}. \<exists>e. cluster_registry (run s0 (take m ds)) k = Some e \<and>
            birth e = step_count s0 + 1 \<and> death e = None"
    using alive by blast
  show ?thesis
  proof (cases "t = 1")
    case True
    then have pre: "?pre = s0" by simp
    have nc: "k = 0 \<or> \<not> carried (step ?d ?pre) k"
      using carried_after_step[of k ?d ?pre] dead st by auto
    have na: "k \<notin> set (active_cluster_ids (step ?d ?pre))"
      using dead st by (simp add: set_active_cluster_ids)
    have "cluster_registry (step ?d ?pre) k = None"
      using none_step[of ?pre k ?d] empty pre na by simp
    then have "cluster_registry (run (step ?d ?pre) ?rest) k = None"
      using nc dr_rest pf by (intro none_run) simp_all
    with whole True 3 show ?thesis by simp
  next
    case False
    then have m: "t - 1 \<in> {1..<t}" using t1 by auto
    from alive[OF m] obtain e where e: "cluster_registry ?pre k = Some e"
      and al: "death e = None" and b: "birth e = step_count s0 + 1"
      and prev: "k \<in> fst ` set (current_clusters ?pre)" by blast
    have sc: "step_count (step ?d ?pre) = step_count s0 + int t"
      using lt t1 by (simp add: step_count_run)
    have dr2: "\<forall>d' \<in> set (?d # ?rest). \<forall>i j. 0 \<le> rnd_fire d' i j"
      using dr_d dr_rest by simp
    have pf': "p_fire ?pre = 0" using pf by simp
    have dead': "burning_count (step ?d ?pre) k = 0" using dead st by simp
    have r: "cluster_registry (run s0 ds) k =
          (if length ?rest > window_size ?pre then None
           else Some (e\<lparr>death := Some (step_count (step ?d ?pre))\<rparr>))"
      unfolding whole by (rule death_marked_then_kept[OF pf' dr2 e al prev dead'])
    have iff: "length ?rest > window_size ?pre \<longleftrightarrow> length ds > t + window_size s0"
      using tl by (simp add: len) linarith
    show ?thesis
      using r iff False 3 b sc by auto
  qed
qed

text \<open>Instances in scenario B on a 3 by 3 grid. With a tree beside each burning cell, id 1
  has its first step without a burning cell at step 2: its entry is alive at step 1, there
  with death 2 at step 6002, and gone at step 6003. With no tree, that step is step 1, and
  there is no entry.\<close>

theorem scenario_b_registry_life_witness:
  "p_fire scenario_b = 0 \<and> 0 \<le> rnd_fire still 0 0 \<and>
   cluster_registry scenario_b 1 = None \<and> (1::int) \<noteq> 0 \<and>
   first_dead_step scenario_b (still # still # replicate 6000 still) 1 2 \<and>
   cluster_registry (run scenario_b (still # still # replicate 6000 still)) 1 = Some b_dead \<and>
   birth b_dead = step_count scenario_b + 1 \<and>
   death b_dead = Some (step_count scenario_b + int 2) \<and>
   (\<exists>e. cluster_registry (run scenario_b (take 1 (still # still # replicate 6000 still))) 1 =
          Some e \<and> birth e = step_count scenario_b + 1 \<and> death e = None) \<and>
   first_dead_step scenario_b (still # still # replicate 6001 still) 1 2 \<and>
   cluster_registry (run scenario_b (still # still # replicate 6001 still)) 1 = None \<and>
   first_dead_step scenario_b_bare [still] 1 1 \<and>
   cluster_registry (run scenario_b_bare [still]) 1 = None"
proof -
  have pf: "p_fire scenario_b = 0" "p_fire scenario_b_bare = 0" by simp_all
  have z: "0 \<le> rnd_fire still 0 0" by simp
  have dr: "\<forall>d \<in> set (still # still # replicate n still). \<forall>i j. 0 \<le> rnd_fire d i j" for n
    by simp
  have dr1: "\<forall>d \<in> set [still]. \<forall>i j. 0 \<le> rnd_fire d i j" by simp
  have e: "cluster_registry scenario_b 1 = None" "cluster_registry scenario_b_bare 1 = None"
    by simp_all
  have k: "(1::int) \<noteq> 0" by simp
  note f = first_dead_scenario_b
  have fb: "first_dead_step scenario_b_bare [still] 1 1"
    by (simp add: first_dead_step_def)
  have l: "cluster_registry (run scenario_b (still # still # replicate 6000 still)) 1 =
      Some b_dead"
    using sb2_late[of 6000] by (simp add: sb1_def sb2_def)
  note a = scenario_b_registry_life[OF pf(1) dr[of 6000] e(1) k f[of "replicate 6000 still"]]
  note b = scenario_b_registry_life[OF pf(1) dr[of 6001] e(1) k f[of "replicate 6001 still"]]
  note c = scenario_b_registry_life[OF pf(2) dr1 e(2) k fb]
  from a l have 1: "birth b_dead = step_count scenario_b + 1 \<and>
      death b_dead = Some (step_count scenario_b + int 2)" by blast
  have "(1::nat) \<in> {1..<2}" by simp
  with a have 2: "\<exists>e. cluster_registry
        (run scenario_b (take 1 (still # still # replicate 6000 still))) 1 = Some e \<and>
      birth e = step_count scenario_b + 1 \<and> death e = None" by blast
  from b have 3: "cluster_registry (run scenario_b (still # still # replicate 6001 still)) 1 =
      None" by simp
  from c have 4: "cluster_registry (run scenario_b_bare [still]) 1 = None" by blast
  from pf(1) z e(1) k f[of "replicate 6000 still"] l 1 2 f[of "replicate 6001 still"] 3 fb 4
  show ?thesis by blast
qed

text \<open>The statement with removal exactly \<open>window_size\<close> steps after the death, for the
  entries of ids 1 and 2, fails. Scenario B on a 3 by 3 grid, with two burning cells of
  ids 1 and 2 in opposite corners and one tree beside each: both ids burn at step 1 and
  have no burning cell at step 2, and 6000 steps after that death, at step 6002, both
  entries are still in the registry. With no tree beside the burning cells, id 1 has no
  burning cell at step 1 and never has an entry, hence no death step.\<close>

theorem entry_still_present_after_window:
  "burning_count (run scenario_b [still]) 1 = 1 \<and>
   burning_count (run scenario_b [still, still]) 1 = 0 \<and>
   burning_count (run scenario_b [still]) 2 = 1 \<and>
   burning_count (run scenario_b [still, still]) 2 = 0 \<and>
   window_size scenario_b = 6000 \<and>
   step_count (run scenario_b (still # still # replicate 6000 still)) = 6002 \<and>
   cluster_registry (run scenario_b (still # still # replicate 6000 still)) 1 =
     Some \<lparr>birth = 1, death = Some 2, max_size = 2,
           sizes = \<lparr>maxlen = 6000, items = [(1, 2)]\<rparr>\<rparr> \<and>
   cluster_registry (run scenario_b (still # still # replicate 6000 still)) 2 =
     Some \<lparr>birth = 1, death = Some 2, max_size = 2,
           sizes = \<lparr>maxlen = 6000, items = [(1, 2)]\<rparr>\<rparr> \<and>
   fire_cluster_ids scenario_b_bare 0 0 = 1 \<and> grid scenario_b_bare 0 0 = 2 \<and>
   burning_count (run scenario_b_bare [still]) 1 = 0 \<and>
   cluster_registry (run scenario_b_bare [still]) 1 = None \<and>
   cluster_registry (run scenario_b_bare (still # replicate 6000 still)) 1 = None"
proof -
  have "run scenario_b (still # still # replicate 6000 still) = run sb2 (replicate 6000 still)"
    by (simp add: sb1_def sb2_def)
  moreover have "run scenario_b [still] = sb1" "run scenario_b [still, still] = sb2"
    by (simp_all add: sb1_def sb2_def)
  moreover have "cluster_registry (run scenario_b_bare (still # replicate 6000 still)) 1 = None"
    by (rule bare_late) simp
  moreover have "fire_cluster_ids scenario_b_bare 0 0 = 1" "grid scenario_b_bare 0 0 = 2"
    by (simp_all add: scenario_b_ids_def bare_grid_def)
  ultimately show ?thesis
    using sb2_late[of 6000] sb2_late_2[of 6000] by (simp add: step_count_run b_dead_def)
qed

text \<open>C8. In every reachable state the active fire history and the size history of every
  registry entry hold at most \<open>window_size\<close> items; a step appends to the fire history,
  and to the size history of every active id, with first-in, first-out eviction at
  capacity.\<close>

theorem bounded_histories:
  assumes r: "reachable s"
  shows "length (items (active_fire_history s)) \<le> window_size s \<and>
         (cluster_registry s k = Some e \<longrightarrow> length (items (sizes e)) \<le> window_size s) \<and>
         items (active_fire_history (step d s)) =
           fifo_push (window_size s) (items (active_fire_history s))
             (step_count (step d s), np_sum (grid_size s) (burning (step d s))) \<and>
         (k \<in> set (active_cluster_ids (step d s)) \<longrightarrow>
            map_option (\<lambda>e'. items (sizes e')) (cluster_registry (step d s) k) =
              Some (fifo_push (window_size s)
                     (case cluster_registry s k of None \<Rightarrow> [] | Some e \<Rightarrow> items (sizes e))
                     (step_count (step d s), cluster_size (step d s) k)))"
proof -
  have h: "history_ok s" using r by (rule reachable_history_ok)
  then have w: "0 < window_size s" by (simp add: history_ok_def)
  have 1: "length (items (active_fire_history s)) \<le> window_size s"
    using h by (simp add: history_ok_def)
  have 2: "cluster_registry s k = Some e \<longrightarrow> length (items (sizes e)) \<le> window_size s"
    using h unfolding history_ok_def by blast
  have 3: "items (active_fire_history (step d s)) =
           fifo_push (window_size s) (items (active_fire_history s))
             (step_count (step d s), np_sum (grid_size s) (burning (step d s)))"
    using h w deque_append_items[of "active_fire_history s"]
    by (simp add: history_step history_ok_def)
  have 4: "map_option (\<lambda>e'. items (sizes e')) (cluster_registry (step d s) k) =
              Some (fifo_push (window_size s)
                     (case cluster_registry s k of None \<Rightarrow> [] | Some e \<Rightarrow> items (sizes e))
                     (step_count (step d s), cluster_size (step d s) k))"
    if a: "k \<in> set (active_cluster_ids (step d s))"
  proof (cases "cluster_registry s k")
    case None
    then show ?thesis
      using w deque_append_items[of "new_deque (window_size s)"]
      by (simp add: active_entry_step[OF reachable_registry_ok[OF r] a] new_deque_def)
  next
    case (Some e)
    with h have "maxlen (sizes e) = window_size s" "length (items (sizes e)) \<le> window_size s"
      unfolding history_ok_def by blast+
    with Some w deque_append_items[of "sizes e"] show ?thesis
      by (simp add: active_entry_step[OF reachable_registry_ok[OF r] a])
  qed
  from 1 2 3 4 show ?thesis by blast
qed

text \<open>An instance: the 2 by 2 forest after the strike, and id 1.\<close>

theorem bounded_histories_witness:
  "reachable f1 \<and>
   cluster_registry f1 1 =
     Some \<lparr>birth = 1, death = None, max_size = 1,
           sizes = \<lparr>maxlen = 6000, items = [(1, 1)]\<rparr>\<rparr> \<and>
   1 \<in> set (active_cluster_ids (step calm f1)) \<and>
   length (items (active_fire_history f1)) \<le> window_size f1 \<and>
   length (items (sizes \<lparr>birth = 1, death = None, max_size = 1,
           sizes = \<lparr>maxlen = 6000, items = [(1::int, 1::nat)]\<rparr>\<rparr>)) \<le> window_size f1 \<and>
   items (active_fire_history (step calm f1)) =
     fifo_push (window_size f1) (items (active_fire_history f1))
       (step_count (step calm f1), np_sum (grid_size f1) (burning (step calm f1))) \<and>
   map_option (\<lambda>e'. items (sizes e')) (cluster_registry (step calm f1) 1) =
     Some (fifo_push (window_size f1)
            (case cluster_registry f1 1 of None \<Rightarrow> [] | Some e \<Rightarrow> items (sizes e))
            (step_count (step calm f1), cluster_size (step calm f1) 1))"
proof -
  have e: "cluster_registry f1 1 =
     Some \<lparr>birth = 1, death = None, max_size = 1,
           sizes = \<lparr>maxlen = 6000, items = [(1, 1)]\<rparr>\<rparr>" by simp
  have a: "1 \<in> set (active_cluster_ids (step calm f1))"
    using f2_active by (simp add: f2_def)
  from bounded_histories[OF reachable_f1, of 1
      "\<lparr>birth = 1, death = None, max_size = 1, sizes = \<lparr>maxlen = 6000, items = [(1, 1)]\<rparr>\<rparr>" calm]
    reachable_f1 e a
  show ?thesis by blast
qed

text \<open>C9, as the code has it. A negative grid size makes the constructor fail, with the
  \<^verbatim>\<open>ValueError\<close> of the array allocation. Nothing else is validated: whether the
  constructor fails does not depend on \<open>p_tree\<close> and \<open>p_fire\<close> (nor on the draws), a grid
  size of 0 is accepted whatever the probabilities, and an instance that is returned
  stores the grid size and the probabilities unchanged.\<close>

theorem init_checks_only_the_allocation:
  "(gs < 0 \<longrightarrow> init mem gs pt pf rnd = Inl ValueError) \<and>
   isl (init mem gs pt pf rnd) = isl (init mem gs pt' pf' rnd') \<and>
   \<not> isl (init mem 0 pt pf rnd) \<and>
   (init mem gs pt pf rnd = Inr s \<longrightarrow>
      grid_size s = nat gs \<and> p_tree s = pt \<and> p_fire s = pf)"
proof (intro conjI impI)
  assume "gs < 0"
  then show "init mem gs pt pf rnd = Inl ValueError"
    by (simp add: init_def np_zeros_error_def)
next
  show "isl (init mem gs pt pf rnd) = isl (init mem gs pt' pf' rnd')"
    by (cases "np_zeros_error mem gs") (simp_all add: init_def)
next
  show "\<not> isl (init mem 0 pt pf rnd)"
    by (simp add: init_def np_zeros_error_def max_array_bytes_def)
next
  assume "init mem gs pt pf rnd = Inr s"
  then show "grid_size s = nat gs" "p_tree s = pt" "p_fire s = pf"
    by (auto simp: init_def split: option.splits)
qed

text \<open>Two instances: grid size \<open>-1\<close> fails, with probabilities inside \<open>[0, 1]\<close> as with
  probabilities outside; and the 2 by 2 forest is constructed with the parameters it was
  given.\<close>

theorem init_checks_only_the_allocation_witness:
  "(- 1 :: int) < 0 \<and> init plenty (- 1) 0 (1/2) no_draws = Inl ValueError \<and>
   isl (init plenty (- 1) 0 (1/2) no_draws) = isl (init plenty (- 1) 2 (- 1) no_draws) \<and>
   init plenty 2 0 (1/2) no_draws = Inr forest \<and>
   grid_size forest = nat 2 \<and> p_tree forest = 0 \<and> p_fire forest = 1/2"
proof -
  have n: "(- 1 :: int) < 0" by simp
  note t = init_checks_only_the_allocation[of "- 1" plenty 0 "1/2" no_draws 2 "- 1" no_draws]
  note u = init_checks_only_the_allocation[of 2 plenty 0 "1/2" no_draws 0 0 no_draws forest]
  from t n have 1: "init plenty (- 1) 0 (1/2) no_draws = Inl ValueError" by blast
  from t have 2: "isl (init plenty (- 1) 0 (1/2) no_draws) =
      isl (init plenty (- 1) 2 (- 1) no_draws)" by blast
  from u init_forest have 3: "grid_size forest = nat 2 \<and> p_tree forest = 0 \<and>
      p_fire forest = 1/2" by blast
  from n 1 2 init_forest 3 show ?thesis by blast
qed

text \<open>Rejection of every invalid parameter set fails: grid size 0, \<open>p_tree = 2\<close> and
  \<open>p_fire = -1\<close> construct an instance.\<close>

theorem init_accepts_bad_parameters:
  "\<not> isl (init plenty 0 2 (- 1) no_draws) \<and>
   grid_size (projr (init plenty 0 2 (- 1) no_draws)) = 0 \<and>
   p_tree (projr (init plenty 0 2 (- 1) no_draws)) = 2 \<and>
   p_fire (projr (init plenty 0 2 (- 1) no_draws)) = - 1"
  by (simp add: init_def Let_def)

text \<open>C10. Between any two states of a run from a reachable state in which an id has a
  registry entry, the entry's birth is the same, and its death, once set, is the same.\<close>

theorem entry_write_once:
  assumes "reachable s" "cluster_registry s k = Some e" "cluster_registry (run s ds) k = Some e'"
  shows "birth e' = birth e \<and> (death e = None \<or> death e' = death e)"
  using assms
proof (induction ds arbitrary: s e)
  case Nil
  then show ?case by simp
next
  case (Cons d ds)
  show ?case
  proof (cases "cluster_registry (step d s) k")
    case None
    from entry_lost[OF reachable_registry_ok[OF Cons.prems(1)] Cons.prems(2) None]
    have "cluster_registry (run (step d s) ds) k = None"
      using None by (intro gone_run) auto
    with Cons.prems(3) show ?thesis by simp
  next
    case (Some e1)
    have r: "reachable (step d s)" using Cons.prems(1) by (rule reachable_step)
    from Cons.IH[OF r Some] Cons.prems(3)
    have "birth e' = birth e1 \<and> (death e1 = None \<or> death e' = death e1)" by simp
    with entry_step_same[OF Cons.prems(2) Some] show ?thesis by auto
  qed
qed

text \<open>Instances: the entry of id 1 of the 2 by 2 forest keeps its birth from step 1
  to step 4, where its death is set, and is unchanged 6000 steps later.\<close>

theorem entry_write_once_witness:
  "reachable f1 \<and>
   cluster_registry f1 1 =
     Some \<lparr>birth = 1, death = None, max_size = 1,
           sizes = \<lparr>maxlen = 6000, items = [(1, 1)]\<rparr>\<rparr> \<and>
   cluster_registry (run f1 [calm, calm, calm]) 1 = Some burnt_out \<and>
   birth burnt_out = 1 \<and>
   reachable f4 \<and> cluster_registry f4 1 = Some burnt_out \<and> death burnt_out = Some 4 \<and>
   map_option death (cluster_registry (run f4 (replicate 6000 calm)) 1) = Some (Some 4)"
proof -
  have e: "cluster_registry f1 1 =
     Some \<lparr>birth = 1, death = None, max_size = 1,
           sizes = \<lparr>maxlen = 6000, items = [(1, 1)]\<rparr>\<rparr>" by simp
  have e': "cluster_registry (run f1 [calm, calm, calm]) 1 = Some burnt_out"
    using f4_registry by (simp add: f4_def f3_def f2_def burnt_out_def)
  from entry_write_once[OF reachable_f1 e e'] have b: "birth burnt_out = 1" by simp
  have l: "cluster_registry f4 1 = Some burnt_out" by (simp add: burnt_out_def)
  have d: "death burnt_out = Some 4" by (simp add: burnt_out_def)
  obtain e2 where l': "cluster_registry (run f4 (replicate 6000 calm)) 1 = Some e2"
    using f4_late[of 6000] by simp
  from entry_write_once[OF reachable_f4 l l'] d have "death e2 = Some 4" by simp
  with l' have m: "map_option death (cluster_registry (run f4 (replicate 6000 calm)) 1) =
      Some (Some 4)" by simp
  from reachable_f1 e e' b reachable_f4 l d m show ?thesis by blast
qed

end
